theory Spec2Isabelle
  imports Main "HOL-Library.AList"
begin

section \<open>Text\<close>

text \<open>
  Python \<^verbatim>\<open>str\<close> values are modelled as \<^typ>\<open>string\<close>; a character stands for a code
  point below 256. \<^verbatim>\<open>str.strip()\<close> removes the characters for which \<^verbatim>\<open>str.isspace\<close>
  holds from both ends; in this range these are the code points 9 to 13, 28 to 32, 133
  and 160.
\<close>

definition isspace :: "char \<Rightarrow> bool" where
  "isspace c =
     (let n = (of_char c :: nat)
      in (9 \<le> n \<and> n \<le> 13) \<or> (28 \<le> n \<and> n \<le> 32) \<or> n = 133 \<or> n = 160)"

definition strip :: "string \<Rightarrow> string" where
  "strip s = rev (dropWhile isspace (rev (dropWhile isspace s)))"

text \<open>Python's \<^verbatim>\<open>a or b\<close> on strings: \<^verbatim>\<open>a\<close> unless it is empty.\<close>

definition py_or :: "string \<Rightarrow> string \<Rightarrow> string" where
  "py_or a b = (if a \<noteq> [] then a else b)"

section \<open>The clock and the child's output stream\<close>

text \<open>
  Clock readings (\<^verbatim>\<open>time.time()\<close>) are integers counting milliseconds, so the constants
  0.05, 0.1, 0.25, 0.6 and 3 of the source read 50, 100, 250, 600 and 3000. Running code
  takes no time; time passes only inside \<^verbatim>\<open>select\<close> and \<^verbatim>\<open>wait\<close>.

  What the child will write to its standard output is a script: a list of chunks, each
  with its arrival time. A chunk with no bytes stands for the end of the stream (the
  writer closed the pipe at that time); an exhausted list is a pipe that stays open and
  silent.
\<close>

type_synonym stream = "(int \<times> string) list"

text \<open>
  \<^verbatim>\<open>select.select([fd], [], [], timeout)\<close> at time \<open>now\<close>: whether the descriptor is
  readable, and the time at which the call returns.
\<close>

definition select :: "stream \<Rightarrow> int \<Rightarrow> int \<Rightarrow> bool \<times> int" where
  "select s now timeout =
     (case s of
        [] \<Rightarrow> (False, now + timeout)
      | (t, d) # rest \<Rightarrow>
          if t \<le> now + timeout then (True, max now t) else (False, now + timeout))"

definition arrived :: "int \<Rightarrow> int \<times> string \<Rightarrow> bool" where
  "arrived now = (\<lambda>(t, d). t \<le> now \<and> d \<noteq> [])"

text \<open>
  \<^verbatim>\<open>os.read(fd, n)\<close> at time \<open>now\<close>, called after \<^verbatim>\<open>select\<close> reported the descriptor
  readable: up to \<open>n\<close> of the bytes that have arrived, and nothing at the end of the
  stream. Bytes beyond \<open>n\<close> stay in the pipe.
\<close>

definition os_read :: "stream \<Rightarrow> int \<Rightarrow> nat \<Rightarrow> string \<times> stream" where
  "os_read s now n =
     (let buf = concat (map snd (takeWhile (arrived now) s));
          rest = dropWhile (arrived now) s
      in (take n buf, if drop n buf = [] then rest else (now, drop n buf) # rest))"

definition unread :: "stream \<Rightarrow> nat" where
  "unread s = length (concat (map snd s))"

lemma unread_os_read:
  "unread (snd (os_read s now n)) + length (fst (os_read s now n)) = unread s"
proof -
  have "unread s = unread (takeWhile (arrived now) s @ dropWhile (arrived now) s)"
    by simp
  also have "\<dots> = length (concat (map snd (takeWhile (arrived now) s)))
      + unread (dropWhile (arrived now) s)"
    unfolding unread_def by (simp del: takeWhile_dropWhile_id)
  finally show ?thesis
    by (auto simp: os_read_def Let_def unread_def min_def)
qed

lemma os_read_consumes:
  "(raw, s1) = os_read s now n \<Longrightarrow> raw \<noteq> [] \<Longrightarrow> unread s1 < unread s"
proof -
  assume eq: "(raw, s1) = os_read s now n" and ne: "raw \<noteq> []"
  from eq have "fst (os_read s now n) = raw" "snd (os_read s now n) = s1"
    by (simp_all flip: eq)
  with unread_os_read [of s now n] ne show ?thesis
    by (cases raw) auto
qed

section \<open>The Response Reader\<close>

text \<open>
  The inner loop of \<^verbatim>\<open>_read_response\<close> (lines 117 to 124), entered with the quiet
  deadline that line 116 computed. \<open>decode\<close> is \<^verbatim>\<open>bytes.decode("utf-8", errors="replace")\<close>,
  a parameter of the model.
\<close>

function quiet_loop ::
  "(string \<Rightarrow> string) \<Rightarrow> int \<Rightarrow> int \<Rightarrow> stream \<Rightarrow> string list
    \<Rightarrow> int \<times> stream \<times> string list" where
  "quiet_loop decode quiet_deadline now s chunks =
     (if now < quiet_deadline then
        (case select s now 100 of
           (ready, now1) \<Rightarrow>
             if \<not> ready then quiet_loop decode quiet_deadline now1 s chunks
             else (case os_read s now1 4096 of
                     (extra_raw, s1) \<Rightarrow>
                       if extra_raw = [] then (now1, s1, chunks)
                       else quiet_loop decode quiet_deadline now1 s1
                              (chunks @ [decode extra_raw])))
      else (now, s, chunks))"
  by pat_completeness auto
termination
proof (relation "measures [\<lambda>(decode, qd, now, s, chunks). unread s,
                           \<lambda>(decode, qd, now, s, chunks). nat (qd - now)]")
qed (auto simp: select_def dest: os_read_consumes split: list.splits if_splits)

lemma quiet_loop_unread:
  "quiet_loop decode qd now s chunks = (now', s', chunks') \<Longrightarrow> unread s' \<le> unread s"
proof (induction decode qd now s chunks rule: quiet_loop.induct)
  case (1 decode qd now s chunks)
  show ?case
  proof (cases "now < qd")
    case False
    with "1.prems" show ?thesis by simp
  next
    case True
    obtain ready now1 where sel: "select s now 100 = (ready, now1)"
      by (cases "select s now 100")
    show ?thesis
    proof (cases ready)
      case False
      with True sel "1.prems" "1.IH"(1) [OF True sel [symmetric]] show ?thesis by simp
    next
      case ready: True
      obtain raw s1 where rd: "os_read s now1 4096 = (raw, s1)"
        by (cases "os_read s now1 4096")
      have le: "unread s1 \<le> unread s"
        using unread_os_read [of s now1 4096] rd by simp
      show ?thesis
      proof (cases "raw = []")
        case True
        with \<open>now < qd\<close> sel ready rd "1.prems" le show ?thesis by simp
      next
        case False
        have "unread s' \<le> unread s1"
          using "1.IH"(2) [OF \<open>now < qd\<close> sel [symmetric] _ rd [symmetric] False]
            \<open>now < qd\<close> sel ready rd False "1.prems" by simp
        with le show ?thesis by simp
      qed
    qed
  qed
qed

declare quiet_loop.simps [simp del]

text \<open>The outer loop of \<^verbatim>\<open>_read_response\<close> (lines 105 to 124).\<close>

function read_loop ::
  "(string \<Rightarrow> string) \<Rightarrow> int \<Rightarrow> int \<Rightarrow> stream \<Rightarrow> string list
    \<Rightarrow> int \<times> stream \<times> string list" where
  "read_loop decode deadline now s chunks =
     (if now < deadline then
        (case select s now (min 250 (max 50 (deadline - now))) of
           (ready, now1) \<Rightarrow>
             if \<not> ready then
               (if chunks \<noteq> [] then (now1, s, chunks)
                else read_loop decode deadline now1 s chunks)
             else (case os_read s now1 4096 of
                     (raw, s1) \<Rightarrow>
                       if raw = [] then (now1, s1, chunks)
                       else (case quiet_loop decode (now1 + 600) now1 s1
                                    (chunks @ [decode raw]) of
                               (now2, s2, chunks2) \<Rightarrow>
                                 read_loop decode deadline now2 s2 chunks2)))
      else (now, s, chunks))"
  by pat_completeness auto
termination
proof (relation "measures [\<lambda>(decode, deadline, now, s, chunks). unread s,
                           \<lambda>(decode, deadline, now, s, chunks). nat (deadline - now)]")
  show "wf (measures [\<lambda>(decode, deadline, now, s, chunks). unread s,
                       \<lambda>(decode, deadline, now, s, chunks). nat (deadline - now)])"
    by simp
next
  fix decode :: "string \<Rightarrow> string" and deadline now :: int and s :: stream
    and chunks :: "string list" and x ready now1
  assume "now < deadline" "(ready, now1) = select s now (min 250 (max 50 (deadline - now)))"
    "\<not> ready" "\<not> chunks \<noteq> []"
  then show "((decode, deadline, now1, s, chunks), decode, deadline, now, s, chunks)
       \<in> measures [\<lambda>(decode, deadline, now, s, chunks). unread s,
                    \<lambda>(decode, deadline, now, s, chunks). nat (deadline - now)]"
    by (auto simp: select_def split: list.splits if_splits)
next
  fix decode :: "string \<Rightarrow> string" and deadline now :: int and s :: stream
    and chunks :: "string list" and ready now1 raw s1 now2 y s2 chunks2
  assume "(raw, s1) = os_read s now1 4096" "raw \<noteq> []"
    "(now2, y) = quiet_loop decode (now1 + 600) now1 s1 (chunks @ [decode raw])"
    "(s2, chunks2) = y"
  then have "unread s1 < unread s" "unread s2 \<le> unread s1"
    using os_read_consumes quiet_loop_unread [of decode "now1 + 600" now1 s1 _ now2 s2 chunks2]
    by auto
  then show "((decode, deadline, now2, s2, chunks2), decode, deadline, now, s, chunks)
       \<in> measures [\<lambda>(decode, deadline, now, s, chunks). unread s,
                    \<lambda>(decode, deadline, now, s, chunks). nat (deadline - now)]"
    by simp
qed

declare read_loop.simps [simp del]

text \<open>
  The body of \<^verbatim>\<open>_read_response\<close> on the child's output stream: the text returned, the
  time of the return and what is left in the pipe.
\<close>

definition read_response_body ::
  "(string \<Rightarrow> string) \<Rightarrow> int \<Rightarrow> int \<Rightarrow> stream \<Rightarrow> string \<times> int \<times> stream" where
  "read_response_body decode timeout_seconds now s =
     (case read_loop decode (now + timeout_seconds * 1000) now s [] of
        (now', s', chunks) \<Rightarrow> (concat chunks, now', s'))"

section \<open>Child processes\<close>

text \<open>
  A \<^verbatim>\<open>subprocess.Popen\<close> object and the child behind it. The child's future is a script:
  \<^item> \<open>exited\<close>: the child has ended (\<^verbatim>\<open>poll()\<close> no longer returns \<^verbatim>\<open>None\<close>);
  \<^item> \<open>runs_for\<close>: how many more calls of \<^verbatim>\<open>poll()\<close> find the child running before it
    ends on its own (\<open>None\<close>: it runs until it is signalled);
  \<^item> \<open>stdin_open\<close>: whether a write to the child's standard input succeeds;
  \<^item> \<open>stdout\<close>: what the child writes to its standard output, and when;
  \<^item> \<open>term_delay\<close>: how long after SIGTERM the child ends, in milliseconds (\<open>None\<close>: it
    ignores the signal);
  \<^item> \<open>kill_lag\<close>: how many calls of \<^verbatim>\<open>poll()\<close> still find the child running after
    SIGKILL has been sent to it.
\<close>

record popen =
  exited :: bool
  runs_for :: "nat option"
  stdin_open :: bool
  stdout :: stream
  term_delay :: "nat option"
  kill_lag :: nat

datatype error = OSError | BrokenPipeError

record session =
  session_key :: string
  process :: nat
  last_used :: int

datatype lock = RegistryLock | SessionLock nat

datatype event =
    Acquire lock
  | Release lock
  | Spawn nat
  | Write nat string
  | SigTerm nat
  | SigKill nat

text \<open>
  The adapter (\<open>sessions\<close>, the two configured durations) together with its surroundings:
  the clock, the \<^verbatim>\<open>Popen\<close> objects by identity (\<open>procs\<close>), what the next calls of
  \<^verbatim>\<open>subprocess.Popen\<close> yield (\<open>spawn_plan\<close>, \<open>None\<close> where the call raises), and the
  trace of what was done to locks and processes. \<open>sessions\<close> is the dictionary
  \<^verbatim>\<open>self._sessions\<close> in insertion order. A session's lock is named by the session's
  process.
\<close>

record world =
  clock :: int
  spawn_plan :: "nat \<Rightarrow> popen option"
  spawned :: nat
  procs :: "nat \<Rightarrow> popen"
  bytes_decode :: "string \<Rightarrow> string"
  sessions :: "(string \<times> session) list"
  idle_timeout_seconds :: int
  cleanup_interval_seconds :: int
  trace :: "event list"

definition emit :: "event \<Rightarrow> world \<Rightarrow> world" where
  "emit e w = w\<lparr>trace := trace w @ [e]\<rparr>"

definition set_proc :: "nat \<Rightarrow> popen \<Rightarrow> world \<Rightarrow> world" where
  "set_proc pid p w = w\<lparr>procs := (procs w)(pid := p)\<rparr>"

text \<open>\<^verbatim>\<open>process.poll() is None\<close>.\<close>

definition poll :: "nat \<Rightarrow> world \<Rightarrow> bool \<times> world" where
  "poll pid w =
     (let p = procs w pid in
      if exited p then (False, w)
      else (case runs_for p of
              None \<Rightarrow> (True, w)
            | Some 0 \<Rightarrow> (False, set_proc pid (p\<lparr>exited := True\<rparr>) w)
            | Some (Suc k) \<Rightarrow> (True, set_proc pid (p\<lparr>runs_for := Some k\<rparr>) w)))"

definition terminate :: "nat \<Rightarrow> world \<Rightarrow> world" where
  "terminate pid w = emit (SigTerm pid) w"

text \<open>
  \<^verbatim>\<open>process.wait(timeout)\<close> after SIGTERM: \<open>True\<close> when the child ended within the
  timeout, \<open>False\<close> for \<^verbatim>\<open>TimeoutExpired\<close>.
\<close>

definition wait :: "nat \<Rightarrow> int \<Rightarrow> world \<Rightarrow> bool \<times> world" where
  "wait pid timeout w =
     (case term_delay (procs w pid) of
        None \<Rightarrow> (False, w\<lparr>clock := clock w + timeout\<rparr>)
      | Some d \<Rightarrow>
          if int d \<le> timeout
          then (True, set_proc pid ((procs w pid)\<lparr>exited := True\<rparr>)
                        (w\<lparr>clock := clock w + int d\<rparr>))
          else (False, w\<lparr>clock := clock w + timeout\<rparr>))"

text \<open>
  \<^verbatim>\<open>process.kill()\<close> sends SIGKILL and returns; it does not wait for the child. From
  then on the child ends on its own, after at most \<open>kill_lag\<close> further polls.
\<close>

definition kill :: "nat \<Rightarrow> world \<Rightarrow> world" where
  "kill pid w =
     (let p = procs w pid
      in set_proc pid
           (p\<lparr>runs_for := Some (case runs_for p of
                                    None \<Rightarrow> kill_lag p
                                  | Some k \<Rightarrow> min k (kill_lag p))\<rparr>)
           (emit (SigKill pid) w))"

definition terminate_process :: "nat \<Rightarrow> world \<Rightarrow> world" where
  "terminate_process pid w =
     (case poll pid w of
        (running, w1) \<Rightarrow>
          if running then
            (case wait pid 3000 (terminate pid w1) of
               (in_time, w2) \<Rightarrow> if in_time then w2 else kill pid w2)
          else w1)"

definition spawn_process :: "world \<Rightarrow> (error + nat) \<times> world" where
  "spawn_process w =
     (case spawn_plan w (spawned w) of
        None \<Rightarrow> (Inl OSError, w\<lparr>spawned := Suc (spawned w)\<rparr>)
      | Some p \<Rightarrow>
          (Inr (spawned w),
           emit (Spawn (spawned w))
             (set_proc (spawned w) p (w\<lparr>spawned := Suc (spawned w)\<rparr>))))"

section \<open>The session registry\<close>

text \<open>
  The methods of \<^verbatim>\<open>ClaudeAdapter\<close> keep their names, without the leading underscore
  of the private ones. The \<^verbatim>\<open>with self._sessions_lock\<close> blocks show in the trace as
  \<open>Acquire RegistryLock\<close> and \<open>Release RegistryLock\<close>.

  Lines 74 to 76 of \<^verbatim>\<open>_get_or_create_session\<close>, which are lines 83 to 85 of
  \<^verbatim>\<open>_replace_session\<close>: spawn, build the session, store it under the key, return it;
  leaving the \<^verbatim>\<open>with\<close> block releases the registry lock, also when the spawn raises.
\<close>

definition install_session :: "string \<Rightarrow> world \<Rightarrow> (error + session) \<times> world" where
  "install_session key w =
     (case spawn_process w of
        (Inl e, w1) \<Rightarrow> (Inl e, emit (Release RegistryLock) w1)
      | (Inr pid, w1) \<Rightarrow>
          (let session = \<lparr>session_key = key, process = pid, last_used = clock w1\<rparr>
           in (Inr session,
               emit (Release RegistryLock)
                 (w1\<lparr>sessions := AList.update key session (sessions w1)\<rparr>))))"

definition get_or_create_session :: "string \<Rightarrow> world \<Rightarrow> (error + session) \<times> world" where
  "get_or_create_session key w =
     (let w1 = emit (Acquire RegistryLock) w in
      case map_of (sessions w1) key of
        Some session \<Rightarrow>
          (case poll (process session) w1 of
             (running, w2) \<Rightarrow>
               if running then (Inr session, emit (Release RegistryLock) w2)
               else install_session key (terminate_process (process session) w2))
      | None \<Rightarrow> install_session key w1)"

definition replace_session :: "string \<Rightarrow> world \<Rightarrow> (error + session) \<times> world" where
  "replace_session key w =
     (let w1 = emit (Acquire RegistryLock) w in
      case map_of (sessions w1) key of
        Some existing \<Rightarrow> install_session key (terminate_process (process existing) w1)
      | None \<Rightarrow> install_session key w1)"

definition terminate_session :: "string \<Rightarrow> world \<Rightarrow> world" where
  "terminate_session key w =
     (let w1 = emit (Acquire RegistryLock) w;
          session = map_of (sessions w1) key;
          w2 = emit (Release RegistryLock)
                 (w1\<lparr>sessions := AList.delete key (sessions w1)\<rparr>)
      in case session of
           Some s \<Rightarrow> terminate_process (process s) w2
         | None \<Rightarrow> w2)"

section \<open>The request coordinator\<close>

text \<open>
  \<^verbatim>\<open>session.last_used = time.time()\<close>: the session in hand is the registry's entry for
  the key.
\<close>

definition touch :: "string \<Rightarrow> world \<Rightarrow> world" where
  "touch key w =
     w\<lparr>sessions := AList.map_entry key (\<lambda>s. s\<lparr>last_used := clock w\<rparr>) (sessions w)\<rparr>"

text \<open>\<^verbatim>\<open>stdin.write(data)\<close> and \<^verbatim>\<open>stdin.flush()\<close>.\<close>

definition stdin_write :: "nat \<Rightarrow> string \<Rightarrow> world \<Rightarrow> (error + unit) \<times> world" where
  "stdin_write pid data w =
     (if stdin_open (procs w pid) then (Inr (), emit (Write pid data) w)
      else (Inl BrokenPipeError, w))"

definition read_response :: "nat \<Rightarrow> int \<Rightarrow> world \<Rightarrow> string \<times> world" where
  "read_response pid timeout_seconds w =
     (case read_response_body (bytes_decode w) timeout_seconds (clock w) (stdout (procs w pid)) of
        (output, now', s') \<Rightarrow>
          (output, set_proc pid ((procs w pid)\<lparr>stdout := s'\<rparr>) (w\<lparr>clock := now'\<rparr>)))"

text \<open>
  \<^verbatim>\<open>ask\<close>. The source loops with \<^verbatim>\<open>while True\<close>; the first argument bounds the number
  of iterations, and \<open>None\<close> says that the bound was reached before the loop returned
  or raised.
\<close>

fun ask ::
  "nat \<Rightarrow> string \<Rightarrow> string \<Rightarrow> int \<Rightarrow> world \<Rightarrow> ((error + string) \<times> world) option" where
  "ask 0 key prompt timeout_seconds w = None"
| "ask (Suc fuel) key prompt timeout_seconds w =
     (case get_or_create_session key w of
        (Inl e, w1) \<Rightarrow> Some (Inl e, w1)
      | (Inr session, w1) \<Rightarrow>
          (let pid = process session;
               unlock = emit (Release (SessionLock pid))
           in case poll pid (emit (Acquire (SessionLock pid)) w1) of
                (running, w2) \<Rightarrow>
                  if \<not> running then
                    (case replace_session key w2 of
                       (Inl e, w3) \<Rightarrow> Some (Inl e, unlock w3)
                     | (Inr new, w3) \<Rightarrow> ask fuel key prompt timeout_seconds (unlock w3))
                  else
                    (case stdin_write pid (prompt @ [CHR 0x0A]) (touch key w2) of
                       (Inl e, w3) \<Rightarrow> Some (Inl e, unlock w3)
                     | (Inr u, w3) \<Rightarrow>
                         (case read_response pid timeout_seconds w3 of
                            (output, w4) \<Rightarrow>
                              Some (Inr (py_or (strip output) ''(no response)''),
                                    unlock (touch key w4))))))"

text \<open>
  The loop of \<^verbatim>\<open>ask\<close> up to the point where the in-lock check has found the process
  running (lines 41 to 47): the session in hand and the state in which lines 49 to 57
  then run, with the session's lock held.
\<close>

fun acquire_live :: "nat \<Rightarrow> string \<Rightarrow> world \<Rightarrow> ((error + session) \<times> world) option" where
  "acquire_live 0 key w = None"
| "acquire_live (Suc fuel) key w =
     (case get_or_create_session key w of
        (Inl e, w1) \<Rightarrow> Some (Inl e, w1)
      | (Inr session, w1) \<Rightarrow>
          (let pid = process session;
               unlock = emit (Release (SessionLock pid))
           in case poll pid (emit (Acquire (SessionLock pid)) w1) of
                (running, w2) \<Rightarrow>
                  if \<not> running then
                    (case replace_session key w2 of
                       (Inl e, w3) \<Rightarrow> Some (Inl e, unlock w3)
                     | (Inr new, w3) \<Rightarrow> acquire_live fuel key (unlock w3))
                  else Some (Inr session, w2)))"

section \<open>The idle reaper and shutdown\<close>

text \<open>One pass of the body of the loop in \<^verbatim>\<open>_cleanup_worker\<close> (lines 129 to 137).\<close>

definition cleanup_tick :: "world \<Rightarrow> world" where
  "cleanup_tick w =
     (let now = clock w;
          w1 = emit (Acquire RegistryLock) w;
          stale = map fst (filter (\<lambda>(session_key, session).
                     now - last_used session > idle_timeout_seconds w1 * 1000) (sessions w1));
          w2 = emit (Release RegistryLock) w1
      in foldl (\<lambda>w session_key. terminate_session session_key w) w2 stale)"

text \<open>
  \<^verbatim>\<open>_cleanup_worker\<close>, for the number of times \<^verbatim>\<open>_shutdown_event.wait\<close> runs into its
  timeout before shutdown is signalled.
\<close>

fun cleanup_worker :: "nat \<Rightarrow> world \<Rightarrow> world" where
  "cleanup_worker 0 w = w"
| "cleanup_worker (Suc ticks) w =
     cleanup_worker ticks
       (cleanup_tick (w\<lparr>clock := clock w + cleanup_interval_seconds w * 1000\<rparr>))"

text \<open>
  \<^verbatim>\<open>close\<close>, after the reaper thread has been told to stop: the keys are listed under
  the registry lock and each session is terminated. The wait for the reaper thread
  (\<^verbatim>\<open>join(timeout=2)\<close>) is not part of the model.
\<close>

definition close :: "world \<Rightarrow> world" where
  "close w =
     (let w1 = emit (Acquire RegistryLock) w;
          keys = map fst (sessions w1);
          w2 = emit (Release RegistryLock) w1
      in foldl (\<lambda>w key. terminate_session key w) w2 keys)"

section \<open>The bridge service\<close>

record qq_message_event =
  event_id :: string
  sender_id :: string
  channel_id :: "string option"
  group_id :: "string option"
  event_text :: string
  is_self_message :: bool

datatype json = Str string | Num int

datatype call = Ask string string | Send_message qq_message_event string

text \<open>
  \<^verbatim>\<open>QQMessageEvent\<close> without its \<^verbatim>\<open>raw_payload\<close>; the field \<^verbatim>\<open>text\<close> is \<open>event_text\<close>
  here. \<^verbatim>\<open>BridgeService.handle_incoming_event\<close>. The two adapters are parameters, as they are
  of the service: \<open>parse_event\<close> and \<open>send_message\<close> of the QQ adapter, \<open>ask\<close> of the
  Claude adapter (\<open>Inl\<close> where it raises). The result is the response dictionary and
  the calls made to \<open>ask\<close> and \<open>send_message\<close>, in order.
\<close>

definition handle_incoming_event ::
  "('p \<Rightarrow> qq_message_event) \<Rightarrow> (string \<Rightarrow> string \<Rightarrow> error + string)
    \<Rightarrow> (qq_message_event \<Rightarrow> string \<Rightarrow> int \<times> string) \<Rightarrow> 'p
    \<Rightarrow> (error + (string \<times> json) list) \<times> call list" where
  "handle_incoming_event parse_event claude_ask send_message payload =
     (let event = parse_event payload in
      if is_self_message event then
        (Inr [(''status'', Str ''ignored''), (''reason'', Str ''self_message''),
              (''event_id'', Str (event_id event))], [])
      else if sender_id event = [] \<or> strip (event_text event) = [] then
        (Inr [(''status'', Str ''ignored''), (''reason'', Str ''empty_sender_or_text''),
              (''event_id'', Str (event_id event))], [])
      else
        (let session_key = sender_id event in
         case claude_ask session_key (event_text event) of
           Inl e \<Rightarrow> (Inl e, [Ask session_key (event_text event)])
         | Inr claude_response \<Rightarrow>
             (case send_message event claude_response of
                (status_code, response_payload) \<Rightarrow>
                  (Inr [(''status'', Str ''ok''), (''event_id'', Str (event_id event)),
                        (''session_key'', Str session_key),
                        (''qq_send_status'', Num status_code),
                        (''qq_send_response'', Str (take 500 response_payload))],
                   [Ask session_key (event_text event), Send_message event claude_response]))))"

section \<open>Initial state and example worlds\<close>

text \<open>
  \<^verbatim>\<open>ClaudeAdapter.__init__\<close>: no sessions, the two configured durations, and the
  surroundings the adapter starts in (what the calls of \<^verbatim>\<open>Popen\<close> will yield, and the
  codec). No \<^verbatim>\<open>Popen\<close> object exists yet; \<open>gone\<close> fills the unused identities.
\<close>

definition gone :: popen where
  "gone = \<lparr>exited = True, runs_for = None, stdin_open = False, stdout = [], term_delay = None,
            kill_lag = 0\<rparr>"

definition init :: "(nat \<Rightarrow> popen option) \<Rightarrow> (string \<Rightarrow> string) \<Rightarrow> int \<Rightarrow> int \<Rightarrow> world" where
  "init plan dec idle_timeout cleanup_interval =
     \<lparr>clock = 0, spawn_plan = plan, spawned = 0, procs = (\<lambda>pid. gone), bytes_decode = dec,
      sessions = [], idle_timeout_seconds = idle_timeout,
      cleanup_interval_seconds = cleanup_interval, trace = []\<rparr>"

text \<open>
  A well-behaved child: it runs until it is signalled, accepts writes, writes \<open>out\<close> to
  its standard output, and ends 20 milliseconds after SIGTERM; after SIGKILL one more
  poll finds it running.
\<close>

definition child :: "stream \<Rightarrow> popen" where
  "child out = \<lparr>exited = False, runs_for = None, stdin_open = True, stdout = out,
                term_delay = Some 20, kill_lag = 1\<rparr>"

text \<open>
  An adapter whose children answer \<open>hi-reply\<close> between blanks and then stay silent, and
  one whose children close their standard output at once.
\<close>

definition replying :: world where
  "replying = init (\<lambda>n. Some (child [(0, ''  hi-reply '')])) id 900 30"

definition closing :: world where
  "closing = init (\<lambda>n. Some (child [(0, '''')])) id 900 30"

text \<open>An adapter whose children have closed their standard input.\<close>

definition broken_stdin :: world where
  "broken_stdin = init (\<lambda>n. Some ((child [])\<lparr>stdin_open := False\<rparr>)) id 900 30"

text \<open>A child that has ended by the first \<^verbatim>\<open>poll()\<close>.\<close>

definition doomed :: popen where
  "doomed = (child [])\<lparr>runs_for := Some 0\<rparr>"

text \<open>
  An adapter with one session, whose child ignores SIGTERM; and one at clock 20000 with
  two sessions, an idle timeout of 40 seconds and a tick interval of 30, the first
  child ignoring SIGTERM.
\<close>

definition one_session :: world where
  "one_session =
     (init (\<lambda>n. Some (child [])) id 900 30)
       \<lparr>spawned := 1,
        procs := (\<lambda>pid. gone)(0 := (child [])\<lparr>term_delay := None\<rparr>),
        sessions := [(''u1'', \<lparr>session_key = ''u1'', process = 0, last_used = 0\<rparr>)]\<rparr>"

definition two_sessions :: world where
  "two_sessions =
     (init (\<lambda>n. Some (child [])) id 40 30)
       \<lparr>clock := 20000, spawned := 2,
        procs := (\<lambda>pid. gone)(0 := (child [])\<lparr>term_delay := None\<rparr>, 1 := child []),
        sessions := [(''a'', \<lparr>session_key = ''a'', process = 0, last_used = 0\<rparr>),
                     (''b'', \<lparr>session_key = ''b'', process = 1, last_used = 10000\<rparr>)]\<rparr>"

text \<open>
  \<open>terminated\<close>: the child has ended, or SIGKILL has been sent to it. \<open>signals\<close>: the
  signals sent to a child, as the trace has them.
\<close>

definition terminated :: "nat \<Rightarrow> world \<Rightarrow> bool" where
  "terminated pid w \<longleftrightarrow> exited (procs w pid) \<or> SigKill pid \<in> set (trace w)"

definition signals :: "nat \<Rightarrow> event list \<Rightarrow> event list" where
  "signals pid tr = filter (\<lambda>e. e = SigTerm pid \<or> e = SigKill pid) tr"

text \<open>The registry invariant of claim C9: every entry is stored under its own key.\<close>

definition registry_keys_consistent :: "world \<Rightarrow> bool" where
  "registry_keys_consistent w \<longleftrightarrow> (\<forall>(k, s) \<in> set (sessions w). session_key s = k)"

text \<open>
  Every child that will be spawned is \<open>doomed\<close>, and so is the child of the session
  stored under the key, if there is one.
\<close>

definition dying :: "string \<Rightarrow> world \<Rightarrow> bool" where
  "dying key w \<longleftrightarrow>
     spawn_plan w = (\<lambda>n. Some doomed) \<and>
     (case map_of (sessions w) key of
        None \<Rightarrow> True
      | Some s \<Rightarrow> exited (procs w (process s)) \<or> runs_for (procs w (process s)) = Some 0)"

lemmas world_defs =
  gone_def child_def init_def emit_def set_proc_def poll_def terminate_def wait_def kill_def
  terminate_process_def spawn_process_def install_session_def get_or_create_session_def
  replace_session_def terminate_session_def touch_def stdin_write_def read_response_def
  read_response_body_def select_def os_read_def arrived_def strip_def py_or_def isspace_def
  cleanup_tick_def close_def Let_def

section \<open>Properties of the Response Reader\<close>

lemma select_head_ready:
  "now \<le> a \<Longrightarrow> a \<le> now + timeout \<Longrightarrow> select ((a, d) # rest) now timeout = (True, a)"
  by (simp add: select_def)

lemma select_head_late:
  "now + timeout < a \<Longrightarrow> select ((a, d) # rest) now timeout = (False, now + timeout)"
  by (simp add: select_def)

lemma select_time:
  "0 \<le> timeout \<Longrightarrow> select s now timeout = (ready, now1) \<Longrightarrow> now \<le> now1 \<and> now1 \<le> now + timeout"
  by (auto simp: select_def split: list.splits if_splits)

text \<open>
  While nothing has been collected, the outer loop polls until the first chunk arrives,
  provided that it arrives before the deadline.
\<close>

lemma read_loop_wait:
  "now \<le> a \<Longrightarrow> a < deadline \<Longrightarrow>
   read_loop decode deadline now ((a, d) # rest) []
     = read_loop decode deadline a ((a, d) # rest) []"
proof (induction "nat (a - now)" arbitrary: now rule: less_induct)
  case less
  let ?t = "min 250 (max 50 (deadline - now))"
  have pos: "0 < ?t" by simp
  show ?case
  proof (cases "a \<le> now + ?t")
    case True
    have here: "a \<le> a + min 250 (max 50 (deadline - a))" by simp
    have "read_loop decode deadline now ((a, d) # rest) []
        = (case os_read ((a, d) # rest) a 4096 of
             (raw, s1) \<Rightarrow>
               if raw = [] then (a, s1, [])
               else (case quiet_loop decode (a + 600) a s1 ([] @ [decode raw]) of
                       (now2, s2, chunks2) \<Rightarrow> read_loop decode deadline now2 s2 chunks2))"
      using less.prems True
      by (subst read_loop.simps) (simp add: select_head_ready)
    also have "\<dots> = read_loop decode deadline a ((a, d) # rest) []"
      using less.prems here
      by (subst (2) read_loop.simps) (simp add: select_head_ready)
    finally show ?thesis .
  next
    case False
    have "read_loop decode deadline now ((a, d) # rest) []
        = read_loop decode deadline (now + ?t) ((a, d) # rest) []"
      using False less.prems by (subst read_loop.simps) (simp add: select_head_late)
    also have "\<dots> = read_loop decode deadline a ((a, d) # rest) []"
      using False less.prems pos by (intro less.hyps) auto
    finally show ?thesis .
  qed
qed

lemma collate_at:
  "decode ''AB'' = ''AB'' \<Longrightarrow> decode ''CD'' = ''CD'' \<Longrightarrow> a < deadline \<Longrightarrow>
   snd (snd (read_loop decode deadline a [(a, ''AB''), (a + 300, ''CD'')] []))
     = [''AB'', ''CD'']"
  by (simp add: read_loop.simps quiet_loop.simps select_def os_read_def arrived_def)


lemma quiet_loop_exit_time:
  "fst (quiet_loop decode qd now s chunks) \<le> max now (qd + 99)"
proof (induction decode qd now s chunks rule: quiet_loop.induct)
  case (1 decode qd now s chunks)
  show ?case
  proof (cases "now < qd")
    case False
    then show ?thesis by (simp add: quiet_loop.simps)
  next
    case True
    obtain ready now1 where sel: "select s now 100 = (ready, now1)"
      by (cases "select s now 100")
    obtain raw s1 where rd: "os_read s now1 4096 = (raw, s1)"
      by (cases "os_read s now1 4096")
    have n1: "now \<le> now1" "now1 \<le> now + 100"
      using select_time [OF _ sel] by simp_all
    show ?thesis
    proof (cases ready)
      case False
      with True sel n1 "1.IH"(1) [OF True sel [symmetric]] show ?thesis
        by (subst quiet_loop.simps) auto
    next
      case r: True
      show ?thesis
      proof (cases "raw = []")
        case True
        with \<open>now < qd\<close> sel rd r n1 show ?thesis
          by (subst quiet_loop.simps) auto
      next
        case False
        with True sel rd r n1 "1.IH"(2) [OF True sel [symmetric] _ rd [symmetric]] show ?thesis
          by (subst quiet_loop.simps) auto
      qed
    qed
  qed
qed

lemma arrived_data: "arrived now x \<Longrightarrow> snd x \<noteq> []"
  by (simp add: arrived_def split_beta)

lemma arrived_nothing:
  "concat (map snd (takeWhile (arrived now) s)) = [] \<Longrightarrow> takeWhile (arrived now) s = []"
proof (cases s)
  case Nil
  then show ?thesis by simp
next
  case (Cons x xs)
  assume "concat (map snd (takeWhile (arrived now) s)) = []"
  with Cons have "\<not> arrived now x"
    using arrived_data [of now x] by (cases "arrived now x") simp_all
  with Cons show ?thesis by simp
qed

lemma os_read_nothing:
  assumes "os_read s now n = (raw, s1)" and "0 < n" and "raw = []"
  shows "s1 = s"
proof -
  have "concat (map snd (takeWhile (arrived now) s)) = []"
    using assms by (auto simp: os_read_def Let_def)
  then have "takeWhile (arrived now) s = []"
    by (rule arrived_nothing)
  then have "dropWhile (arrived now) s = s"
    by (metis append_Nil takeWhile_dropWhile_id)
  with \<open>takeWhile (arrived now) s = []\<close> assms show ?thesis
    by (simp add: os_read_def)
qed

text \<open>
  The inner loop leaves before its deadline only on a zero-length read: the descriptor
  was readable and the read returned nothing.
\<close>

lemma quiet_loop_early_exit:
  "quiet_loop decode qd now s chunks = (now', s', chunks') \<Longrightarrow> now' < qd \<Longrightarrow>
   fst (select s' now' 0) \<and> fst (os_read s' now' 4096) = []"
proof (induction decode qd now s chunks rule: quiet_loop.induct)
  case (1 decode qd now s chunks)
  from "1.prems" have lt: "now < qd"
    by (cases "now < qd") (auto simp: quiet_loop.simps)
  obtain ready now1 where sel: "select s now 100 = (ready, now1)"
    by (cases "select s now 100")
  obtain raw s1 where rd: "os_read s now1 4096 = (raw, s1)"
    by (cases "os_read s now1 4096")
  show ?case
  proof (cases ready)
    case False
    have "quiet_loop decode qd now1 s chunks = (now', s', chunks')"
      using "1.prems"(1) lt sel False by (subst (asm) quiet_loop.simps) simp
    from "1.IH"(1) [OF lt sel [symmetric] _ this "1.prems"(2)] False show ?thesis by simp
  next
    case r: True
    show ?thesis
    proof (cases "raw = []")
      case False
      have "quiet_loop decode qd now1 s1 (chunks @ [decode raw]) = (now', s', chunks')"
        using "1.prems"(1) lt sel r rd False by (subst (asm) quiet_loop.simps) simp
      from "1.IH"(2) [OF lt sel [symmetric] _ rd [symmetric] False this "1.prems"(2)] r
      show ?thesis by simp
    next
      case True
      have "now' = now1 \<and> s' = s1"
        using "1.prems"(1) lt sel r rd True by (subst (asm) quiet_loop.simps) simp
      then have res: "now' = now1" "s' = s1"
        by simp_all
      have "s1 = s"
        using os_read_nothing [OF rd _ True] by simp
      moreover have "s \<noteq> []" "fst (hd s) \<le> now1"
        using sel r by (auto simp: select_def split: list.splits if_splits)
      ultimately show ?thesis
        using res rd True by (cases s) (auto simp: select_def)
    qed
  qed
qed


text \<open>
  Claim C4. A stream emits \<open>AB\<close>, is silent for 0.3 time units, emits \<open>CD\<close> and stays
  silent. Whenever the first chunk arrives before the overall deadline (at \<open>a\<close>, not
  before the Reader starts at \<open>now\<close>), the Reader returns the one response \<open>ABCD\<close>.
  The codec is only required to leave these two ASCII chunks as they are.
\<close>

theorem quiet_window_collation:
  assumes "decode ''AB'' = ''AB''" and "decode ''CD'' = ''CD''"
    and "now \<le> a" and "a < now + timeout_seconds * 1000"
  shows "fst (read_response_body decode timeout_seconds now [(a, ''AB''), (a + 300, ''CD'')])
           = ''ABCD''"
proof -
  have "snd (snd (read_loop decode (now + timeout_seconds * 1000) now
                    [(a, ''AB''), (a + 300, ''CD'')] []))
      = [''AB'', ''CD'']"
    using read_loop_wait [OF assms(3,4), of decode "''AB''" "[(a + 300, ''CD'')]"]
      collate_at [OF assms(1,2,4)] by simp
  then show ?thesis
    by (auto simp: read_response_body_def split: prod.splits)
qed

theorem quiet_window_collation_witness:
  "id ''AB'' = ''AB'' \<and> id ''CD'' = ''CD'' \<and> (0::int) \<le> 0 \<and> (0::int) < 0 + 30 * 1000
   \<and> fst (read_response_body id 30 0 [(0, ''AB''), (0 + 300, ''CD'')]) = ''ABCD''"
  using quiet_window_collation [of id 0 0 30] by simp




text \<open>
  Claim C2, as stated, fails. Entered at time 0 after a first chunk \<open>A\<close>, the sub-loop
  has the quiet deadline 600. \<open>B\<close> arrives at 450 and is appended, but the sub-loop is
  left at 650, only 200 after that arrival; \<open>C\<close>, which arrives at 950 (500 after \<open>B\<close>,
  inside a window restarted by \<open>B\<close>), is not collated: the Reader returns \<open>AB\<close>.
\<close>

theorem quiet_window_restart_counterexample:
  "quiet_loop id 600 0 [(450, ''B''), (950, ''C'')] [''A'']
     = (650, [(950, ''C'')], [''A'', ''B''])
   \<and> read_response_body id 30 0 [(0, ''A''), (450, ''B''), (950, ''C'')]
     = (''AB'', 900, [(950, ''C'')])"
  by (simp add: read_response_body_def read_loop.simps quiet_loop.simps select_def
      os_read_def arrived_def)

lemma os_read_bytes:
  "os_read s now n = (raw, s1) \<Longrightarrow> concat (map snd s) = raw @ concat (map snd s1)"
proof -
  assume rd: "os_read s now n = (raw, s1)"
  let ?buf = "concat (map snd (takeWhile (arrived now) s))"
  let ?rest = "dropWhile (arrived now) s"
  have "concat (map snd s) = concat (map snd (takeWhile (arrived now) s @ ?rest))"
    by simp
  also have "\<dots> = ?buf @ concat (map snd ?rest)"
    by (simp del: takeWhile_dropWhile_id)
  also have "?buf = take n ?buf @ drop n ?buf"
    by simp
  finally have "concat (map snd s) = take n ?buf @ drop n ?buf @ concat (map snd ?rest)"
    by simp
  with rd show ?thesis
    by (auto simp: os_read_def Let_def split: if_splits)
qed

lemma takeWhile_dropWhile_nil: "takeWhile P (dropWhile P xs) = []"
  by (induction xs) auto

lemma os_read_again:
  assumes "os_read s now n = (raw, s1)"
  shows "fst (os_read s1 now n) = [] \<or> length raw = n"
proof (cases "drop n (concat (map snd (takeWhile (arrived now) s))) = []")
  case True
  with assms have "s1 = dropWhile (arrived now) s"
    by (auto simp: os_read_def Let_def)
  then have "takeWhile (arrived now) s1 = []"
    by (simp add: takeWhile_dropWhile_nil)
  then show ?thesis
    by (simp add: os_read_def Let_def)
next
  case False
  with assms show ?thesis
    by (auto simp: os_read_def Let_def)
qed

lemma select_not_ready:
  assumes "select s now timeout = (False, now1)"
  shows "fst (os_read s now1 n) = []"
proof -
  from assms have "takeWhile (arrived now1) s = []"
    by (cases s) (auto simp: select_def arrived_def split: if_splits)
  then show ?thesis
    by (simp add: os_read_def Let_def)
qed

lemma quiet_loop_reads:
  "quiet_loop decode qd now s chunks = (now', s', chunks') \<Longrightarrow>
   \<exists>raws. chunks' = chunks @ map decode raws \<and> [] \<notin> set raws
     \<and> concat (map snd s) = concat raws @ concat (map snd s')
     \<and> (now < qd \<longrightarrow>
          fst (os_read s' now' 4096) = [] \<or> (raws \<noteq> [] \<and> length (last raws) = 4096))"
proof (induction decode qd now s chunks rule: quiet_loop.induct)
  case (1 decode qd now s chunks)
  show ?case
  proof (cases "now < qd")
    case False
    with "1.prems" have "now' = now" "s' = s" "chunks' = chunks"
      by (simp_all add: quiet_loop.simps)
    with False show ?thesis
      by (intro exI [of _ "[]"]) simp
  next
    case lt: True
    obtain ready now1 where sel: "select s now 100 = (ready, now1)"
      by (cases "select s now 100")
    obtain raw s1 where rd: "os_read s now1 4096 = (raw, s1)"
      by (cases "os_read s now1 4096")
    show ?thesis
    proof (cases ready)
      case False
      have rec: "quiet_loop decode qd now1 s chunks = (now', s', chunks')"
        using "1.prems" lt sel False by (subst (asm) quiet_loop.simps) simp
      from "1.IH"(1) [OF lt sel [symmetric] _ rec] False obtain raws where
        r: "chunks' = chunks @ map decode raws" "[] \<notin> set raws"
          "concat (map snd s) = concat raws @ concat (map snd s')"
          "now1 < qd \<longrightarrow>
             fst (os_read s' now' 4096) = [] \<or> (raws \<noteq> [] \<and> length (last raws) = 4096)"
        by auto
      have "fst (os_read s' now' 4096) = [] \<or> (raws \<noteq> [] \<and> length (last raws) = 4096)"
      proof (cases "now1 < qd")
        case True
        with r(4) show ?thesis by simp
      next
        case False
        with rec have "now' = now1" "s' = s"
          by (simp_all add: quiet_loop.simps)
        with select_not_ready [of s now 100 now1 4096] sel \<open>\<not> ready\<close> show ?thesis
          by simp
      qed
      with r(1-3) show ?thesis by blast
    next
      case ready: True
      show ?thesis
      proof (cases "raw = []")
        case True
        have "now' = now1 \<and> s' = s1 \<and> chunks' = chunks"
          using "1.prems" lt sel ready rd True by (subst (asm) quiet_loop.simps) simp
        moreover have "s1 = s"
          using os_read_nothing [OF rd _ True] by simp
        ultimately show ?thesis
          using rd True by (intro exI [of _ "[]"]) simp
      next
        case False
        have rec: "quiet_loop decode qd now1 s1 (chunks @ [decode raw]) = (now', s', chunks')"
          using "1.prems" lt sel ready rd False by (subst (asm) quiet_loop.simps) simp
        from "1.IH"(2) [OF lt sel [symmetric] _ rd [symmetric] False rec] ready obtain raws where
          r: "chunks' = (chunks @ [decode raw]) @ map decode raws" "[] \<notin> set raws"
            "concat (map snd s1) = concat raws @ concat (map snd s')"
            "now1 < qd \<longrightarrow>
               fst (os_read s' now' 4096) = [] \<or> (raws \<noteq> [] \<and> length (last raws) = 4096)"
          by auto
        have last: "fst (os_read s' now' 4096) = []
            \<or> (raw # raws \<noteq> [] \<and> length (last (raw # raws)) = 4096)"
        proof (cases "now1 < qd")
          case True
          with r(4) show ?thesis by auto
        next
          case False
          with rec have e: "now' = now1" "s' = s1" "chunks' = chunks @ [decode raw]"
            by (simp_all add: quiet_loop.simps)
          with r(1) have "raws = []" by simp
          with os_read_again [OF rd] e show ?thesis by auto
        qed
        have "chunks' = chunks @ map decode (raw # raws)"
          using r(1) by simp
        moreover have "[] \<notin> set (raw # raws)"
          using r(2) False by auto
        moreover have "concat (map snd s) = concat (raw # raws) @ concat (map snd s')"
          using os_read_bytes [OF rd] r(3) by simp
        ultimately show ?thesis
          using last by blast
      qed
    qed
  qed
qed

text \<open>
  Claim C2, amended. The sub-loop is entered with the quiet deadline 600 milliseconds
  after the read that entered it, and the deadline is not restarted by later arrivals:
  the sub-loop is left no later than 99 milliseconds after it, and before it only on a
  zero-length read (the descriptor readable with nothing to read). Every piece of data
  taken from the pipe is appended to the accumulated buffer, decoded and in order, and
  nothing else is; when the sub-loop is left, nothing that has arrived is still in the
  pipe, unless the last read was a full one of 4096 bytes.
\<close>

theorem quiet_loop_fixed_deadline:
  assumes "quiet_loop decode (now + 600) now s chunks = (now', s', chunks')"
  shows "(\<exists>raws. chunks' = chunks @ map decode raws \<and> [] \<notin> set raws
            \<and> concat (map snd s) = concat raws @ concat (map snd s')
            \<and> (fst (os_read s' now' 4096) = []
                 \<or> (raws \<noteq> [] \<and> length (last raws) = 4096)))
       \<and> now' \<le> now + 699
       \<and> (now' < now + 600 \<longrightarrow>
            fst (select s' now' 0) \<and> fst (os_read s' now' 4096) = [])"
proof -
  from quiet_loop_reads [OF assms]
  have "\<exists>raws. chunks' = chunks @ map decode raws \<and> [] \<notin> set raws
            \<and> concat (map snd s) = concat raws @ concat (map snd s')
            \<and> (fst (os_read s' now' 4096) = []
                 \<or> (raws \<noteq> [] \<and> length (last raws) = 4096))"
    by simp
  moreover from quiet_loop_exit_time [of decode "now + 600" now s chunks] assms
  have "now' \<le> now + 699" by simp
  moreover from quiet_loop_early_exit [OF assms]
  have "now' < now + 600 \<longrightarrow> fst (select s' now' 0) \<and> fst (os_read s' now' 4096) = []"
    by simp
  ultimately show ?thesis by blast
qed

theorem quiet_loop_fixed_deadline_witness:
  "quiet_loop id (0 + 600) 0 [(450, ''B''), (950, ''C'')] [''A'']
     = (650, [(950, ''C'')], [''A'', ''B''])
   \<and> (\<exists>raws. [''A'', ''B''] = [''A''] @ map id raws \<and> [] \<notin> set raws
         \<and> concat (map snd [(450, ''B''), (950, ''C'')])
             = concat raws @ concat (map snd [(950 :: int, ''C'')])
         \<and> (fst (os_read [(950, ''C'')] 650 4096) = []
              \<or> (raws \<noteq> [] \<and> length (last raws) = 4096)))
   \<and> (650 :: int) \<le> 0 + 699
   \<and> quiet_loop id (0 + 600) 0 [(200, '''')] [''A''] = (200, [(200, '''')], [''A''])
   \<and> (200 :: int) < 0 + 600
   \<and> fst (select [(200, '''')] 200 0) \<and> fst (os_read [(200, '''')] 200 4096) = []"
proof -
  have data: "quiet_loop id (0 + 600) 0 [(450, ''B''), (950, ''C'')] [''A'']
     = (650, [(950, ''C'')], [''A'', ''B''])"
    by (simp add: quiet_loop.simps select_def os_read_def arrived_def)
  have eof: "quiet_loop id (0 + 600) 0 [(200, '''')] [''A''] = (200, [(200, '''')], [''A''])"
    by (simp add: quiet_loop.simps select_def os_read_def arrived_def)
  from quiet_loop_fixed_deadline [OF data] quiet_loop_fixed_deadline [OF eof] data eof
  show ?thesis by simp
qed

section \<open>Properties of process termination\<close>


text \<open>
  The call does not wait for a killed child: right after it, \<^verbatim>\<open>poll()\<close> can still
  find the child running, and one poll later it has ended.
\<close>

lemma killed_child_polls_running_once:
  "fst (poll 0 (terminate_process 0 one_session))
   \<and> \<not> fst (poll 0 (snd (poll 0 (terminate_process 0 one_session))))"
  by (simp add: one_session_def world_defs)

section \<open>Properties of the request coordinator\<close>

lemma dropWhile_hd: "dropWhile P xs \<noteq> [] \<Longrightarrow> \<not> P (hd (dropWhile P xs))"
  by (metis hd_dropWhile)

lemma strip_ends:
  assumes "strip s \<noteq> []"
  shows "\<not> isspace (hd (strip s)) \<and> \<not> isspace (last (strip s))"
proof -
  define xs where "xs = dropWhile isspace s"
  define ys where "ys = dropWhile isspace (rev xs)"
  have strip: "strip s = rev ys"
    by (simp add: strip_def xs_def ys_def)
  with assms have ys: "ys \<noteq> []" by simp
  have xs: "xs \<noteq> []"
  proof
    assume "xs = []"
    then have "ys = []" by (simp add: ys_def)
    with ys show False by contradiction
  qed
  have "\<not> isspace (hd ys)"
    using ys unfolding ys_def by (rule dropWhile_hd)
  moreover have "last ys = last (rev xs)"
  proof -
    have "rev xs = takeWhile isspace (rev xs) @ ys"
      by (simp add: ys_def)
    then show ?thesis using ys by (metis last_appendR)
  qed
  moreover have "last (rev xs) = hd xs"
    using xs by (simp add: last_rev)
  moreover have "\<not> isspace (hd xs)"
    using xs unfolding xs_def by (rule dropWhile_hd)
  ultimately show ?thesis
    using ys by (simp add: strip hd_rev last_rev)
qed

lemma ask_via_acquire_live:
  "ask fuel key prompt timeout_seconds w =
     (case acquire_live fuel key w of
        None \<Rightarrow> None
      | Some (Inl e, w1) \<Rightarrow> Some (Inl e, w1)
      | Some (Inr session, w2) \<Rightarrow>
          (let pid = process session;
               unlock = emit (Release (SessionLock pid))
           in case stdin_write pid (prompt @ [CHR 0x0A]) (touch key w2) of
                (Inl e, w3) \<Rightarrow> Some (Inl e, unlock w3)
              | (Inr u, w3) \<Rightarrow>
                  (case read_response pid timeout_seconds w3 of
                     (output, w4) \<Rightarrow>
                       Some (Inr (py_or (strip output) ''(no response)''),
                             unlock (touch key w4)))))"
proof (induction fuel arbitrary: w)
  case 0
  then show ?case by simp
next
  case (Suc fuel)
  show ?case
    by (simp add: Let_def Suc.IH split: prod.splits sum.splits)
qed

lemma strip_decomp:
  "s = takeWhile isspace s @ strip s @ rev (takeWhile isspace (rev (dropWhile isspace s)))"
proof -
  define xs where "xs = dropWhile isspace s"
  have "rev xs = takeWhile isspace (rev xs) @ dropWhile isspace (rev xs)"
    by simp
  then have "rev (rev xs) = rev (takeWhile isspace (rev xs) @ dropWhile isspace (rev xs))"
    by (rule arg_cong)
  then have "xs = strip s @ rev (takeWhile isspace (rev xs))"
    by (simp add: strip_def xs_def del: takeWhile_dropWhile_id)
  moreover have "s = takeWhile isspace s @ xs"
    by (simp add: xs_def)
  ultimately show ?thesis
    by (simp add: xs_def)
qed

lemma strip_surroundings:
  "\<exists>pre post. s = pre @ strip s @ post \<and> (\<forall>c \<in> set pre. isspace c) \<and> (\<forall>c \<in> set post. isspace c)"
proof (intro exI conjI)
  show "s = takeWhile isspace s @ strip s
          @ rev (takeWhile isspace (rev (dropWhile isspace s)))"
    by (rule strip_decomp)
  show "\<forall>c \<in> set (takeWhile isspace s). isspace c"
    by (auto dest: set_takeWhileD)
  show "\<forall>c \<in> set (rev (takeWhile isspace (rev (dropWhile isspace s)))). isspace c"
    by (auto dest: set_takeWhileD)
qed

text \<open>
  Claim C6. Whenever \<^verbatim>\<open>ask\<close> returns a text, the call has read a response: its loop
  has reached a session whose process the in-lock check found running, and \<open>output\<close>
  is what the Response Reader returned for that process after the prompt was written.
  The text returned is \<open>output\<close> without its leading and trailing whitespace: \<open>output\<close>
  is the text between two runs of whitespace, and the text neither begins nor ends
  with whitespace. When nothing is left after trimming, \<^verbatim>\<open>ask\<close> returns the
  placeholder \<^verbatim>\<open>(no response)\<close>.
\<close>

theorem ask_trims_or_placeholder:
  assumes "map_option fst (ask fuel key prompt timeout_seconds w) = Some (Inr r)"
  shows "\<exists>session w2 output pre post.
           acquire_live fuel key w = Some (Inr session, w2)
         \<and> output = fst (read_response (process session) timeout_seconds
                          (emit (Write (process session) (prompt @ [CHR 0x0A])) (touch key w2)))
         \<and> output = pre @ strip output @ post
         \<and> (\<forall>c \<in> set pre. isspace c) \<and> (\<forall>c \<in> set post. isspace c)
         \<and> (strip output \<noteq> [] \<longrightarrow>
               r = strip output \<and> \<not> isspace (hd r) \<and> \<not> isspace (last r))
         \<and> (strip output = [] \<longrightarrow> r = ''(no response)'')"
proof -
  from assms obtain w' where a: "ask fuel key prompt timeout_seconds w = Some (Inr r, w')"
    by (cases "ask fuel key prompt timeout_seconds w") auto
  then obtain session w2 where
    l: "acquire_live fuel key w = Some (Inr session, w2)"
    by (auto simp: ask_via_acquire_live split: option.splits prod.splits sum.splits)
  define out where "out = fst (read_response (process session) timeout_seconds
      (emit (Write (process session) (prompt @ [CHR 0x0A])) (touch key w2)))"
  from a l have r: "r = py_or (strip out) ''(no response)''"
    by (auto simp: ask_via_acquire_live stdin_write_def Let_def out_def
        split: prod.splits sum.splits if_splits)
  obtain pre post where
    d: "out = pre @ strip out @ post" "\<forall>c \<in> set pre. isspace c" "\<forall>c \<in> set post. isspace c"
    using strip_surroundings [of out] by blast
  have e: "strip out \<noteq> [] \<longrightarrow>
      r = strip out \<and> \<not> isspace (hd r) \<and> \<not> isspace (last r)"
    using r strip_ends [of out] by (simp add: py_or_def)
  have p: "strip out = [] \<longrightarrow> r = ''(no response)''"
    using r by (simp add: py_or_def)
  show ?thesis
  proof (intro exI conjI)
    show "acquire_live fuel key w = Some (Inr session, w2)" by (fact l)
    show "out = fst (read_response (process session) timeout_seconds
                          (emit (Write (process session) (prompt @ [CHR 0x0A])) (touch key w2)))"
      by (fact out_def)
    show "out = pre @ strip out @ post" by (fact d(1))
    show "\<forall>c \<in> set pre. isspace c" by (fact d(2))
    show "\<forall>c \<in> set post. isspace c" by (fact d(3))
    show "strip out \<noteq> [] \<longrightarrow>
      r = strip out \<and> \<not> isspace (hd r) \<and> \<not> isspace (last r)" by (fact e)
    show "strip out = [] \<longrightarrow> r = ''(no response)''" by (fact p)
  qed
qed

theorem ask_trims_or_placeholder_witness:
  "map_option fst (ask (Suc 0) ''u1'' ''hi'' 30 closing) = Some (Inr ''(no response)'')
   \<and> map_option fst (ask (Suc 0) ''u1'' ''hi'' 30 replying) = Some (Inr ''hi-reply'')
   \<and> (\<exists>session w2 output pre post.
           acquire_live (Suc 0) ''u1'' replying = Some (Inr session, w2)
         \<and> output = fst (read_response (process session) 30
                          (emit (Write (process session) (''hi'' @ [CHR 0x0A])) (touch ''u1'' w2)))
         \<and> output = pre @ strip output @ post
         \<and> strip output \<noteq> [] \<and> ''hi-reply'' = strip output)
   \<and> (\<exists>session w2 output.
           acquire_live (Suc 0) ''u1'' closing = Some (Inr session, w2)
         \<and> output = fst (read_response (process session) 30
                          (emit (Write (process session) (''hi'' @ [CHR 0x0A])) (touch ''u1'' w2)))
         \<and> strip output = [])"
proof -
  have c: "map_option fst (ask (Suc 0) ''u1'' ''hi'' 30 closing) = Some (Inr ''(no response)'')"
    by (simp add: closing_def world_defs read_loop.simps)
  have r: "map_option fst (ask (Suc 0) ''u1'' ''hi'' 30 replying) = Some (Inr ''hi-reply'')"
    by (simp add: replying_def world_defs read_loop.simps quiet_loop.simps)
  from ask_trims_or_placeholder [OF r] obtain s1 v1 o1 pre post where
    r1: "acquire_live (Suc 0) ''u1'' replying = Some (Inr s1, v1)"
      "o1 = fst (read_response (process s1) 30
                   (emit (Write (process s1) (''hi'' @ [CHR 0x0A])) (touch ''u1'' v1)))"
      "o1 = pre @ strip o1 @ post"
      "strip o1 \<noteq> [] \<longrightarrow> ''hi-reply'' = strip o1"
      "strip o1 = [] \<longrightarrow> ''hi-reply'' = ''(no response)''"
    by blast
  from r1(5) have n1: "strip o1 \<noteq> []" by auto
  with r1(4) have "''hi-reply'' = strip o1" by simp
  with r1(1-3) n1 have first:
    "\<exists>session w2 output pre post.
           acquire_live (Suc 0) ''u1'' replying = Some (Inr session, w2)
         \<and> output = fst (read_response (process session) 30
                          (emit (Write (process session) (''hi'' @ [CHR 0x0A])) (touch ''u1'' w2)))
         \<and> output = pre @ strip output @ post
         \<and> strip output \<noteq> [] \<and> ''hi-reply'' = strip output"
    by blast
  from ask_trims_or_placeholder [OF c] obtain s2 v2 o2 where
    c1: "acquire_live (Suc 0) ''u1'' closing = Some (Inr s2, v2)"
      "o2 = fst (read_response (process s2) 30
                   (emit (Write (process s2) (''hi'' @ [CHR 0x0A])) (touch ''u1'' v2)))"
      "strip o2 \<noteq> [] \<longrightarrow> ''(no response)'' = strip o2 \<and> \<not> isspace (hd ''(no response)'')
          \<and> \<not> isspace (last ''(no response)'')"
    by blast
  have "strip o2 = []"
    using c1(1,2) by (auto simp: closing_def world_defs read_loop.simps)
  with c1(1,2) have second:
    "\<exists>session w2 output.
           acquire_live (Suc 0) ''u1'' closing = Some (Inr session, w2)
         \<and> output = fst (read_response (process session) 30
                          (emit (Write (process session) (''hi'' @ [CHR 0x0A])) (touch ''u1'' w2)))
         \<and> strip output = []"
    by blast
  from c r first second show ?thesis
    by blast
qed

text \<open>
  Claim C1, as stated, fails. The child's standard input is closed although the
  in-lock liveness check finds the child running. With room for three iterations,
  \<^verbatim>\<open>ask\<close> raises \<^verbatim>\<open>BrokenPipeError\<close> in the first: one process was spawned (the
  session's own), none was signalled, and no replacement or retry took place.
\<close>

theorem write_failure_counterexample:
  "map_option (\<lambda>(r, w'). (r, spawned w', trace w'))
     (ask (Suc (Suc (Suc 0))) ''u1'' ''hi'' 30
        (init (\<lambda>n. Some ((child [])\<lparr>stdin_open := False\<rparr>)) id 900 30))
   = Some (Inl BrokenPipeError, 1,
       [Acquire RegistryLock, Spawn 0, Release RegistryLock,
        Acquire (SessionLock 0), Release (SessionLock 0)])"
  by (simp add: world_defs)

lemma map_entry_processes:
  "map (\<lambda>(k, s). (k, process s)) (AList.map_entry key (\<lambda>s. s\<lparr>last_used := t\<rparr>) al)
     = map (\<lambda>(k, s). (k, process s)) al"
  by (induction al) auto

text \<open>
  Claim C1, amended. An iteration of \<^verbatim>\<open>ask\<close> whose in-lock liveness check finds the
  process running ends the call. If the write then fails, the error surfaces at once:
  nothing is spawned, and the registry holds the same processes under the same keys.
  \<^verbatim>\<open>ask\<close> goes round again only after a check that found the process exited, and
  only after replacing the session.
\<close>

theorem ask_retries_only_dead_process:
  assumes "get_or_create_session key w = (Inr session, w1)"
    and "poll (process session) (emit (Acquire (SessionLock (process session))) w1)
           = (running, w2)"
  shows "(running \<longrightarrow> ask (Suc fuel) key prompt timeout_seconds w \<noteq> None)
       \<and> (running \<and> \<not> stdin_open (procs w2 (process session)) \<longrightarrow>
            (\<exists>w'. ask (Suc fuel) key prompt timeout_seconds w = Some (Inl BrokenPipeError, w')
               \<and> spawned w' = spawned w2
               \<and> trace w' = trace w2 @ [Release (SessionLock (process session))]
               \<and> map (\<lambda>(k, s). (k, process s)) (sessions w')
                    = map (\<lambda>(k, s). (k, process s)) (sessions w2)))
       \<and> (\<not> running \<longrightarrow>
            ask (Suc fuel) key prompt timeout_seconds w
              = (case replace_session key w2 of
                   (Inl e, w3) \<Rightarrow> Some (Inl e, emit (Release (SessionLock (process session))) w3)
                 | (Inr new, w3) \<Rightarrow>
                     ask fuel key prompt timeout_seconds
                       (emit (Release (SessionLock (process session))) w3)))"
proof (intro conjI impI)
  assume running
  with assms show "ask (Suc fuel) key prompt timeout_seconds w \<noteq> None"
    by (simp add: Let_def split: prod.splits sum.splits)
next
  assume "running \<and> \<not> stdin_open (procs w2 (process session))"
  with assms show "\<exists>w'. ask (Suc fuel) key prompt timeout_seconds w = Some (Inl BrokenPipeError, w')
               \<and> spawned w' = spawned w2
               \<and> trace w' = trace w2 @ [Release (SessionLock (process session))]
               \<and> map (\<lambda>(k, s). (k, process s)) (sessions w')
                    = map (\<lambda>(k, s). (k, process s)) (sessions w2)"
    by (simp add: Let_def stdin_write_def touch_def emit_def map_entry_processes)
next
  assume "\<not> running"
  with assms show "ask (Suc fuel) key prompt timeout_seconds w
              = (case replace_session key w2 of
                   (Inl e, w3) \<Rightarrow> Some (Inl e, emit (Release (SessionLock (process session))) w3)
                 | (Inr new, w3) \<Rightarrow>
                     ask fuel key prompt timeout_seconds
                       (emit (Release (SessionLock (process session))) w3))"
    by (simp add: Let_def split: prod.splits sum.splits)
qed

theorem ask_retries_only_dead_process_witness:
  "fst (get_or_create_session ''u1'' broken_stdin)
     = Inr \<lparr>session_key = ''u1'', process = 0, last_used = 0\<rparr>
   \<and> fst (poll 0 (emit (Acquire (SessionLock 0)) (snd (get_or_create_session ''u1'' broken_stdin))))
   \<and> \<not> stdin_open (procs (snd (poll 0 (emit (Acquire (SessionLock 0))
          (snd (get_or_create_session ''u1'' broken_stdin))))) 0)
   \<and> (\<exists>w'. ask (Suc 0) ''u1'' ''hi'' 30 broken_stdin = Some (Inl BrokenPipeError, w')
          \<and> spawned w' = 1)"
proof -
  let ?s = "\<lparr>session_key = ''u1'', process = 0, last_used = 0\<rparr>"
  let ?w1 = "snd (get_or_create_session ''u1'' broken_stdin)"
  let ?p = "poll 0 (emit (Acquire (SessionLock 0)) ?w1)"
  have g: "fst (get_or_create_session ''u1'' broken_stdin) = Inr ?s"
    by (simp add: broken_stdin_def world_defs)
  then have g': "get_or_create_session ''u1'' broken_stdin = (Inr ?s, ?w1)"
    by (simp add: prod_eq_iff)
  have p: "poll (process ?s) (emit (Acquire (SessionLock (process ?s))) ?w1) = (fst ?p, snd ?p)"
    by simp
  have r: "fst ?p"
    by (simp add: broken_stdin_def world_defs)
  have c: "\<not> stdin_open (procs (snd ?p) 0)"
    by (simp add: broken_stdin_def world_defs)
  have n: "spawned (snd ?p) = 1"
    by (simp add: broken_stdin_def world_defs)
  from ask_retries_only_dead_process [OF g' p, of 0 "''hi''" 30] g r c n show ?thesis
    by auto
qed

text \<open>
  The loop of \<^verbatim>\<open>ask\<close> keeps no count of its iterations: where every spawned child has
  ended by its in-lock check, no number of iterations suffices.
\<close>

lemma dying_emit [simp]: "dying key (emit e w) = dying key w"
  by (simp add: dying_def emit_def cong: option.case_cong)

lemma sessions_emit [simp]: "sessions (emit e w) = sessions w"
  by (simp add: emit_def)

lemma procs_emit [simp]: "procs (emit e w) = procs w"
  by (simp add: emit_def)

lemma spawn_plan_emit [simp]: "spawn_plan (emit e w) = spawn_plan w"
  by (simp add: emit_def)

lemma poll_dying:
  assumes "dying key w" and "map_of (sessions w) key = Some s"
  shows "\<not> fst (poll (process s) w) \<and> dying key (snd (poll (process s) w))
       \<and> sessions (snd (poll (process s) w)) = sessions w
       \<and> exited (procs (snd (poll (process s) w)) (process s))"
  using assms by (auto simp: dying_def poll_def set_proc_def Let_def)

lemma terminate_process_exited:
  "exited (procs w pid) \<Longrightarrow> terminate_process pid w = w"
  by (simp add: terminate_process_def poll_def)

lemma install_dying:
  assumes "spawn_plan w = (\<lambda>n. Some doomed)"
  shows "\<exists>s w'. install_session key w = (Inr s, w') \<and> dying key w'
           \<and> map_of (sessions w') key = Some s"
  using assms
  by (simp add: install_session_def spawn_process_def emit_def set_proc_def dying_def
      doomed_def child_def Let_def update_conv')

lemma get_or_create_dying:
  assumes "dying key w"
  shows "\<exists>s w'. get_or_create_session key w = (Inr s, w') \<and> dying key w'
           \<and> map_of (sessions w') key = Some s"
proof (cases "map_of (sessions w) key")
  case None
  with assms install_dying [of "emit (Acquire RegistryLock) w" key] show ?thesis
    by (simp add: get_or_create_session_def Let_def dying_def)
next
  case (Some s)
  let ?w1 = "emit (Acquire RegistryLock) w"
  have d1: "dying key ?w1" and m1: "map_of (sessions ?w1) key = Some s"
    using assms Some by simp_all
  from poll_dying [OF d1 m1] obtain w2 where
    p: "poll (process s) ?w1 = (False, w2)" and d2: "dying key w2"
    and e2: "exited (procs w2 (process s))"
    by (cases "poll (process s) ?w1") auto
  from d2 have "spawn_plan w2 = (\<lambda>n. Some doomed)"
    by (simp add: dying_def)
  from install_dying [OF this, of key] m1 p e2 show ?thesis
    by (simp add: get_or_create_session_def Let_def terminate_process_exited)
qed

lemma replace_dying:
  assumes "dying key w" and "map_of (sessions w) key = Some s"
    and "exited (procs w (process s))"
  shows "\<exists>new w'. replace_session key w = (Inr new, w') \<and> dying key w'"
proof -
  let ?w1 = "emit (Acquire RegistryLock) w"
  have "spawn_plan ?w1 = (\<lambda>n. Some doomed)" "procs ?w1 = procs w"
    "map_of (sessions ?w1) key = Some s"
    using assms by (simp_all add: dying_def)
  with install_dying [of ?w1 key] assms(3) show ?thesis
    by (auto simp: replace_session_def Let_def terminate_process_exited)
qed

lemma dying_step:
  assumes "dying key w"
  shows "\<exists>w'. dying key w' \<and> ask (Suc fuel) key prompt timeout_seconds w
           = ask fuel key prompt timeout_seconds w'"
proof -
  from get_or_create_dying [OF assms] obtain s w1 where
    g: "get_or_create_session key w = (Inr s, w1)" and d1: "dying key w1"
    and m1: "map_of (sessions w1) key = Some s"
    by blast
  let ?w1 = "emit (Acquire (SessionLock (process s))) w1"
  have d1': "dying key ?w1" and m1': "map_of (sessions ?w1) key = Some s"
    using d1 m1 by simp_all
  from poll_dying [OF d1' m1'] m1 obtain w2 where
    p: "poll (process s) ?w1 = (False, w2)" and d2: "dying key w2"
    and m2: "map_of (sessions w2) key = Some s" and e2: "exited (procs w2 (process s))"
    by (cases "poll (process s) ?w1") auto
  from replace_dying [OF d2 m2 e2] obtain new w3 where
    r: "replace_session key w2 = (Inr new, w3)" and d3: "dying key w3"
    by blast
  have step: "ask (Suc fuel) key prompt timeout_seconds w
      = ask fuel key prompt timeout_seconds (emit (Release (SessionLock (process s))) w3)"
    using g p r by (simp add: Let_def)
  show ?thesis
  proof (intro exI conjI)
    show "dying key (emit (Release (SessionLock (process s))) w3)"
      using d3 by simp
    show "ask (Suc fuel) key prompt timeout_seconds w
      = ask fuel key prompt timeout_seconds (emit (Release (SessionLock (process s))) w3)"
      by (fact step)
  qed
qed

lemma ask_never_returns:
  "dying key w \<Longrightarrow> ask fuel key prompt timeout_seconds w = None"
proof (induction fuel arbitrary: w)
  case 0
  then show ?case by simp
next
  case (Suc fuel)
  from dying_step [OF Suc.prems] obtain w' where
    "dying key w'" "ask (Suc fuel) key prompt timeout_seconds w = ask fuel key prompt timeout_seconds w'"
    by blast
  with Suc.IH show ?case by simp
qed

lemma ask_retries_unbounded:
  "ask fuel ''u1'' ''hi'' 30 (init (\<lambda>n. Some doomed) id 900 30) = None"
  by (rule ask_never_returns) (simp add: dying_def init_def)

section \<open>Properties of the registry\<close>

lemma sessions_poll [simp]: "sessions (snd (poll pid w)) = sessions w"
  by (simp add: poll_def set_proc_def Let_def split: option.splits nat.splits)

lemma sessions_terminate_process [simp]: "sessions (terminate_process pid w) = sessions w"
  by (simp add: terminate_process_def poll_def wait_def terminate_def kill_def emit_def
      set_proc_def Let_def split: option.splits nat.splits)

lemma sessions_terminate_session [simp]:
  "sessions (terminate_session key w) = AList.delete key (sessions w)"
  by (simp add: terminate_session_def Let_def split: option.splits)

lemma sessions_read_response [simp]:
  "sessions (snd (read_response pid timeout_seconds w)) = sessions w"
  by (simp add: read_response_def set_proc_def split: prod.splits)

lemma sessions_install:
  "sessions (snd (install_session key w))
     = (case spawn_plan w (spawned w) of
          None \<Rightarrow> sessions w
        | Some p \<Rightarrow>
            AList.update key \<lparr>session_key = key, process = spawned w, last_used = clock w\<rparr>
              (sessions w))"
  by (simp add: install_session_def spawn_process_def set_proc_def emit_def Let_def
      split: option.splits)

lemma consistent_update:
  "session_key v = key \<Longrightarrow> \<forall>(k, s) \<in> set al. session_key s = k \<Longrightarrow>
   \<forall>(k, s) \<in> set (AList.update key v al). session_key s = k"
  by (induction al) auto

lemma consistent_delete:
  "\<forall>(k, s) \<in> set al. session_key s = k \<Longrightarrow>
   \<forall>(k, s) \<in> set (AList.delete key al). session_key s = k"
  by (induction al) auto

lemma consistent_map_entry:
  "\<forall>(k, s) \<in> set al. session_key s = k \<Longrightarrow>
   \<forall>(k, s) \<in> set (AList.map_entry key (\<lambda>s. s\<lparr>last_used := t\<rparr>) al). session_key s = k"
  by (induction al) auto

lemma consistent_install:
  assumes "registry_keys_consistent w"
  shows "registry_keys_consistent (snd (install_session key w))"
proof (cases "spawn_plan w (spawned w)")
  case None
  with assms show ?thesis
    by (simp add: registry_keys_consistent_def sessions_install)
next
  case (Some p)
  let ?v = "\<lparr>session_key = key, process = spawned w, last_used = clock w\<rparr>"
  have "\<forall>(k, s) \<in> set (AList.update key ?v (sessions w)). session_key s = k"
    using assms by (intro consistent_update) (simp_all add: registry_keys_consistent_def)
  with Some show ?thesis
    by (simp add: registry_keys_consistent_def sessions_install)
qed

lemma consistent_emit [simp]:
  "registry_keys_consistent (emit e w) = registry_keys_consistent w"
  by (simp add: registry_keys_consistent_def)

lemma consistent_poll [simp]:
  "registry_keys_consistent (snd (poll pid w)) = registry_keys_consistent w"
  by (simp add: registry_keys_consistent_def)

lemma consistent_terminate_process [simp]:
  "registry_keys_consistent (terminate_process pid w) = registry_keys_consistent w"
  by (simp add: registry_keys_consistent_def)

lemma consistent_get_or_create:
  assumes "registry_keys_consistent w"
  shows "registry_keys_consistent (snd (get_or_create_session key w))"
proof (cases "map_of (sessions w) key")
  case None
  with assms show ?thesis
    by (simp add: get_or_create_session_def Let_def consistent_install)
next
  case (Some session)
  let ?p = "poll (process session) (emit (Acquire RegistryLock) w)"
  have ok: "registry_keys_consistent (snd ?p)"
    using assms by simp
  show ?thesis
  proof (cases "fst ?p")
    case True
    with Some ok show ?thesis
      by (simp add: get_or_create_session_def Let_def split_beta)
  next
    case False
    with Some ok show ?thesis
      by (simp add: get_or_create_session_def Let_def split_beta consistent_install)
  qed
qed

lemma consistent_replace:
  assumes "registry_keys_consistent w"
  shows "registry_keys_consistent (snd (replace_session key w))"
  using assms
  by (cases "map_of (sessions w) key") (simp_all add: replace_session_def Let_def consistent_install)

lemma consistent_terminate_session:
  assumes "registry_keys_consistent w"
  shows "registry_keys_consistent (terminate_session key w)"
  using assms consistent_delete [of "sessions w" key]
  by (simp add: registry_keys_consistent_def)

lemma consistent_fold:
  "registry_keys_consistent w \<Longrightarrow>
   registry_keys_consistent (foldl (\<lambda>w key. terminate_session key w) w keys)"
  by (induction keys arbitrary: w) (simp_all add: consistent_terminate_session)

lemma consistent_cleanup_tick:
  "registry_keys_consistent w \<Longrightarrow> registry_keys_consistent (cleanup_tick w)"
  by (simp add: cleanup_tick_def Let_def consistent_fold)

lemma consistent_close:
  "registry_keys_consistent w \<Longrightarrow> registry_keys_consistent (close w)"
  by (simp add: close_def Let_def consistent_fold)

lemma consistent_touch:
  assumes "registry_keys_consistent w"
  shows "registry_keys_consistent (touch key w)"
  using assms consistent_map_entry [of "sessions w" key "clock w"]
  by (simp add: registry_keys_consistent_def touch_def)

lemma consistent_stdin_write [simp]:
  "registry_keys_consistent (snd (stdin_write pid d w)) = registry_keys_consistent w"
  by (simp add: stdin_write_def)

lemma consistent_read_response [simp]:
  "registry_keys_consistent (snd (read_response pid t w)) = registry_keys_consistent w"
  by (simp add: registry_keys_consistent_def)

lemma consistent_ask:
  "registry_keys_consistent w \<Longrightarrow> ask fuel key prompt t w = Some (r, w') \<Longrightarrow>
   registry_keys_consistent w'"
proof (induction fuel arbitrary: w)
  case 0
  then show ?case by simp
next
  case (Suc fuel)
  obtain g w1 where g: "get_or_create_session key w = (g, w1)"
    by (cases "get_or_create_session key w")
  with Suc.prems(1) consistent_get_or_create [of w key]
  have ok1: "registry_keys_consistent w1" by simp
  show ?case
  proof (cases g)
    case (Inl e)
    with Suc.prems(2) g ok1 show ?thesis by simp
  next
    case (Inr session)
    let ?pid = "process session"
    let ?p = "poll ?pid (emit (Acquire (SessionLock ?pid)) w1)"
    have ok2: "registry_keys_consistent (snd ?p)"
      using ok1 by simp
    show ?thesis
    proof (cases "fst ?p")
      case False
      obtain rr w3 where rp: "replace_session key (snd ?p) = (rr, w3)"
        by (cases "replace_session key (snd ?p)")
      with ok2 consistent_replace [of "snd ?p" key]
      have ok3: "registry_keys_consistent w3" by simp
      show ?thesis
      proof (cases rr)
        case (Inl e)
        with Suc.prems(2) g Inr False rp ok3 show ?thesis
          by (auto simp: Let_def split_beta)
      next
        case new: (Inr new)
        have "ask fuel key prompt t (emit (Release (SessionLock ?pid)) w3) = Some (r, w')"
          using Suc.prems(2) g Inr False rp new by (simp add: Let_def split_beta)
        with Suc.IH [of "emit (Release (SessionLock ?pid)) w3"] ok3 show ?thesis
          by simp
      qed
    next
      case True
      let ?wr = "stdin_write ?pid (prompt @ [CHR 0x0A]) (touch key (snd ?p))"
      have ok3: "registry_keys_consistent (snd ?wr)"
        using ok2 by (simp add: consistent_touch)
      show ?thesis
      proof (cases "fst ?wr")
        case (Inl e)
        with Suc.prems(2) g Inr True ok3 show ?thesis
          by (auto simp: Let_def split_beta split: sum.splits)
      next
        case u: (Inr u)
        have "w' = emit (Release (SessionLock ?pid))
                     (touch key (snd (read_response ?pid t (snd ?wr))))"
          using Suc.prems(2) g Inr True u
          by (auto simp: Let_def split_beta split: sum.splits)
        with ok3 show ?thesis
          by (simp add: consistent_touch)
      qed
    qed
  qed
qed

section \<open>Properties of the idle reaper\<close>

lemma terminated_terminate_process: "terminated pid (terminate_process pid w)"
  by (simp add: terminated_def terminate_process_def poll_def wait_def terminate_def kill_def
      emit_def set_proc_def Let_def split: option.splits nat.splits)

lemma terminated_terminate_process_mono:
  "terminated q w \<Longrightarrow> terminated q (terminate_process pid w)"
  by (auto simp: terminated_def terminate_process_def poll_def wait_def terminate_def kill_def
      emit_def set_proc_def Let_def split: option.splits nat.splits)

lemma terminate_process_other:
  "q \<noteq> pid \<Longrightarrow>
   procs (terminate_process pid w) q = procs w q
   \<and> signals q (trace (terminate_process pid w)) = signals q (trace w)"
  by (simp add: signals_def terminate_process_def poll_def wait_def terminate_def kill_def
      emit_def set_proc_def Let_def split: option.splits nat.splits)

lemma terminate_session_unfold:
  "terminate_session key w =
     (let w2 = emit (Release RegistryLock)
                 ((emit (Acquire RegistryLock) w)\<lparr>sessions := AList.delete key (sessions w)\<rparr>)
      in case map_of (sessions w) key of
           Some s \<Rightarrow> terminate_process (process s) w2
         | None \<Rightarrow> w2)"
  by (simp add: terminate_session_def Let_def emit_def split: option.splits)

lemma terminated_terminate_session_mono:
  "terminated q w \<Longrightarrow> terminated q (terminate_session key w)"
proof -
  assume t: "terminated q w"
  let ?w2 = "emit (Release RegistryLock)
    ((emit (Acquire RegistryLock) w)\<lparr>sessions := AList.delete key (sessions w)\<rparr>)"
  from t have "terminated q ?w2"
    by (auto simp: terminated_def emit_def)
  then show ?thesis
    by (simp add: terminate_session_unfold Let_def terminated_terminate_process_mono
        split: option.splits)
qed

lemma terminated_terminate_session:
  "map_of (sessions w) key = Some s \<Longrightarrow> terminated (process s) (terminate_session key w)"
  by (simp add: terminate_session_unfold Let_def terminated_terminate_process)

lemma terminate_session_other:
  assumes "\<forall>s'. map_of (sessions w) key = Some s' \<longrightarrow> process s' \<noteq> q"
  shows "procs (terminate_session key w) q = procs w q
       \<and> signals q (trace (terminate_session key w)) = signals q (trace w)"
proof -
  let ?w2 = "emit (Release RegistryLock)
    ((emit (Acquire RegistryLock) w)\<lparr>sessions := AList.delete key (sessions w)\<rparr>)"
  have w2: "procs ?w2 q = procs w q" "signals q (trace ?w2) = signals q (trace w)"
    by (simp_all add: emit_def signals_def)
  show ?thesis
  proof (cases "map_of (sessions w) key")
    case None
    with w2 show ?thesis by (simp add: terminate_session_unfold Let_def)
  next
    case (Some s')
    with assms have "q \<noteq> process s'" by auto
    from terminate_process_other [OF this, of ?w2] w2 Some show ?thesis
      by (simp add: terminate_session_unfold Let_def)
  qed
qed

lemma terminated_fold_mono:
  "terminated q w \<Longrightarrow>
   terminated q (foldl (\<lambda>w key. terminate_session key w) w keys)"
  by (induction keys arbitrary: w) (simp_all add: terminated_terminate_session_mono)

lemma terminated_fold:
  "map_of (sessions w) k = Some s \<Longrightarrow> k \<in> set keys \<Longrightarrow>
   terminated (process s) (foldl (\<lambda>w key. terminate_session key w) w keys)"
proof (induction keys arbitrary: w)
  case Nil
  then show ?case by simp
next
  case (Cons key keys)
  show ?case
  proof (cases "key = k")
    case True
    with Cons.prems(1) have "terminated (process s) (terminate_session key w)"
      by (simp add: terminated_terminate_session)
    then show ?thesis
      by (simp add: terminated_fold_mono)
  next
    case False
    with Cons.prems have "map_of (sessions (terminate_session key w)) k = Some s" "k \<in> set keys"
      by (simp_all add: delete_conv')
    from Cons.IH [OF this] show ?thesis by simp
  qed
qed

lemma untouched_fold:
  assumes "\<forall>(k', s') \<in> set (sessions w). k' \<in> set keys \<longrightarrow> process s' \<noteq> q"
  shows "procs (foldl (\<lambda>w key. terminate_session key w) w keys) q = procs w q
       \<and> signals q (trace (foldl (\<lambda>w key. terminate_session key w) w keys))
           = signals q (trace w)"
  using assms
proof (induction keys arbitrary: w)
  case Nil
  then show ?case by simp
next
  case (Cons key keys)
  have step: "procs (terminate_session key w) q = procs w q
       \<and> signals q (trace (terminate_session key w)) = signals q (trace w)"
  proof (rule terminate_session_other, intro allI impI)
    fix s'
    assume "map_of (sessions w) key = Some s'"
    then have "(key, s') \<in> set (sessions w)" by (rule map_of_SomeD)
    with Cons.prems show "process s' \<noteq> q" by auto
  qed
  have "\<forall>(k', s') \<in> set (sessions (terminate_session key w)). k' \<in> set keys \<longrightarrow> process s' \<noteq> q"
    using Cons.prems by (auto simp: AList.delete_eq)
  from Cons.IH [OF this] step show ?case by simp
qed

lemma sessions_fold:
  "map_of (sessions (foldl (\<lambda>w key. terminate_session key w) w keys)) k
     = (if k \<in> set keys then None else map_of (sessions w) k)"
  by (induction keys arbitrary: w) (auto simp: delete_conv')

lemma stale_keys:
  assumes "distinct (map fst al)" and "map_of al k = Some s"
  shows "k \<in> set (map fst (filter (\<lambda>(session_key, session). P session) al)) \<longleftrightarrow> P s"
proof -
  have "\<And>s'. (k, s') \<in> set al \<longleftrightarrow> s' = s"
    using assms by (metis map_of_eq_Some_iff option.inject)
  then show ?thesis by force
qed

lemma other_processes:
  assumes "distinct (map (\<lambda>(k, s). process s) al)" and "(k, s) \<in> set al"
    and "(k', s') \<in> set al" and "k' \<noteq> k"
  shows "process s' \<noteq> process s"
proof -
  from assms(1) have "inj_on (\<lambda>(k, s). process s) (set al)"
    by (simp add: distinct_map)
  from inj_onD [OF this, of "(k', s')" "(k, s)"] assms(2-4) show ?thesis
    by auto
qed

lemma cleanup_tick_unfold:
  "cleanup_tick w =
     foldl (\<lambda>w session_key. terminate_session session_key w)
       (emit (Release RegistryLock) (emit (Acquire RegistryLock) w))
       (map fst (filter (\<lambda>(session_key, session).
          clock w - last_used session > idle_timeout_seconds w * 1000) (sessions w)))"
  by (simp add: cleanup_tick_def Let_def emit_def)

lemma cleanup_tick_evicts:
  assumes "distinct (map fst (sessions w))" and "map_of (sessions w) k = Some s"
    and "clock w - last_used s > idle_timeout_seconds w * 1000"
  shows "map_of (sessions (cleanup_tick w)) k = None
       \<and> terminated (process s) (cleanup_tick w)"
proof -
  let ?stale = "map fst (filter (\<lambda>(session_key, session).
      clock w - last_used session > idle_timeout_seconds w * 1000) (sessions w))"
  let ?w2 = "emit (Release RegistryLock) (emit (Acquire RegistryLock) w)"
  have "k \<in> set ?stale \<longleftrightarrow> clock w - last_used s > idle_timeout_seconds w * 1000"
    using assms(1,2) by (rule stale_keys)
  with assms(3) have mem: "k \<in> set ?stale" by simp
  have m2: "map_of (sessions ?w2) k = Some s"
    using assms(2) by simp
  from terminated_fold [OF m2 mem] mem show ?thesis
    by (simp add: cleanup_tick_unfold sessions_fold)
qed

lemma cleanup_tick_keeps:
  assumes "distinct (map fst (sessions w))"
    and "distinct (map (\<lambda>(k, s). process s) (sessions w))"
    and "map_of (sessions w) k = Some s"
    and "\<not> clock w - last_used s > idle_timeout_seconds w * 1000"
  shows "map_of (sessions (cleanup_tick w)) k = Some s
       \<and> procs (cleanup_tick w) (process s) = procs w (process s)
       \<and> signals (process s) (trace (cleanup_tick w)) = signals (process s) (trace w)"
proof -
  let ?stale = "map fst (filter (\<lambda>(session_key, session).
      clock w - last_used session > idle_timeout_seconds w * 1000) (sessions w))"
  let ?w2 = "emit (Release RegistryLock) (emit (Acquire RegistryLock) w)"
  have "k \<in> set ?stale \<longleftrightarrow> clock w - last_used s > idle_timeout_seconds w * 1000"
    using assms(1,3) by (rule stale_keys)
  with assms(4) have mem: "k \<notin> set ?stale" by simp
  have ks: "(k, s) \<in> set (sessions w)"
    using assms(3) by (rule map_of_SomeD)
  have "\<forall>(k', s') \<in> set (sessions ?w2). k' \<in> set ?stale \<longrightarrow> process s' \<noteq> process s"
  proof (clarify)
    fix k' s'
    assume in2: "(k', s') \<in> set (sessions ?w2)" and st: "k' \<in> set ?stale"
      and eq: "process s' = process s"
    from in2 have "(k', s') \<in> set (sessions w)" by simp
    moreover from st mem have "k' \<noteq> k" by auto
    ultimately have "process s' \<noteq> process s"
      using other_processes [OF assms(2) ks] by blast
    with eq show False by contradiction
  qed
  from untouched_fold [OF this] mem assms(3) show ?thesis
    by (simp add: cleanup_tick_unfold sessions_fold emit_def signals_def)
qed

text \<open>
  Claim C7, as stated, fails. The idle timeout is 40 seconds and the tick interval 30.
  At the first scan (clock 50000) session \<open>a\<close>, last used at 0, is stale; \<open>b\<close>, last
  used at 10000, is exactly at the threshold, which it crosses at 50001. Terminating
  the child of \<open>a\<close>, which ignores SIGTERM, takes the grace period, so the second scan
  happens at 83000: \<open>b\<close> is still registered more than one tick interval after it
  crossed the threshold (80001), and is removed by the second tick.
\<close>

theorem eviction_later_than_one_interval_counterexample:
  "map_of (sessions (cleanup_worker (Suc 0) two_sessions)) ''b''
     = Some \<lparr>session_key = ''b'', process = 1, last_used = 10000\<rparr>
   \<and> clock (cleanup_worker (Suc 0) two_sessions)
       + cleanup_interval_seconds (cleanup_worker (Suc 0) two_sessions) * 1000 = 83000
   \<and> (10000 + idle_timeout_seconds two_sessions * 1000 + 1)
       + cleanup_interval_seconds two_sessions * 1000 < 83000
   \<and> map_of (sessions (cleanup_worker (Suc (Suc 0)) two_sessions)) ''b'' = None"
  by (simp add: two_sessions_def world_defs)

lemma clock_terminate_process:
  "clock w \<le> clock (terminate_process pid w) \<and> clock (terminate_process pid w) \<le> clock w + 3000"
  by (simp add: terminate_process_def poll_def wait_def terminate_def kill_def emit_def
      set_proc_def Let_def split: option.splits nat.splits)

lemma clock_terminate_session:
  "clock w \<le> clock (terminate_session key w) \<and> clock (terminate_session key w) \<le> clock w + 3000"
proof (cases "map_of (sessions w) key")
  case None
  then show ?thesis
    by (simp add: terminate_session_def Let_def emit_def)
next
  case (Some s)
  let ?w2 = "emit (Release RegistryLock)
    ((emit (Acquire RegistryLock) w)\<lparr>sessions := AList.delete key (sessions w)\<rparr>)"
  have "terminate_session key w = terminate_process (process s) ?w2"
    using Some by (simp add: terminate_session_def Let_def)
  moreover have "clock ?w2 = clock w"
    by (simp add: emit_def)
  ultimately show ?thesis
    using clock_terminate_process [of ?w2 "process s"] by simp
qed

lemma clock_fold:
  "clock w \<le> clock (foldl (\<lambda>w key. terminate_session key w) w keys)
   \<and> clock (foldl (\<lambda>w key. terminate_session key w) w keys) \<le> clock w + 3000 * int (length keys)"
proof (induction keys arbitrary: w)
  case Nil
  then show ?case by simp
next
  case (Cons key keys)
  from Cons.IH [of "terminate_session key w"] clock_terminate_session [of w key]
  show ?case by (simp add: algebra_simps)
qed

lemma clock_cleanup_tick:
  "clock w \<le> clock (cleanup_tick w)
   \<and> clock (cleanup_tick w) \<le> clock w + 3000 * int (length (sessions w))"
proof -
  let ?stale = "map fst (filter (\<lambda>(session_key, session).
      clock w - last_used session > idle_timeout_seconds w * 1000) (sessions w))"
  let ?w2 = "emit (Release RegistryLock) (emit (Acquire RegistryLock) w)"
  have tick: "cleanup_tick w = foldl (\<lambda>w session_key. terminate_session session_key w) ?w2 ?stale"
    by (simp add: cleanup_tick_def Let_def emit_def)
  have "int (length ?stale) \<le> int (length (sessions w))"
    by simp
  then have "3000 * int (length ?stale) \<le> 3000 * int (length (sessions w))"
    by simp
  moreover have "clock ?w2 = clock w"
    by (simp add: emit_def)
  moreover note clock_fold [of ?w2 ?stale]
  ultimately show ?thesis
    unfolding tick by linarith
qed

text \<open>
  Claim C7, amended. At a reaper tick, a session whose \<open>last_used\<close> is older than the
  idle timeout at the time of the scan is removed from the registry and its process is
  terminated in that tick: it has ended, or SIGKILL has been sent to it. A session that
  is not older than the threshold at the scan is not evicted by that tick: its entry
  stays, its process is left as it is and no signal is sent to it. The tick takes up to
  the grace period of 3000 milliseconds for each session, and the next scan happens
  one tick interval after the tick has finished.
\<close>

theorem idle_eviction_per_tick:
  assumes "distinct (map fst (sessions w))"
    and "distinct (map (\<lambda>(k, s). process s) (sessions w))"
    and "map_of (sessions w) k = Some s"
  shows "(if clock w - last_used s > idle_timeout_seconds w * 1000
          then map_of (sessions (cleanup_tick w)) k = None
               \<and> terminated (process s) (cleanup_tick w)
          else map_of (sessions (cleanup_tick w)) k = Some s
               \<and> procs (cleanup_tick w) (process s) = procs w (process s)
               \<and> signals (process s) (trace (cleanup_tick w))
                   = signals (process s) (trace w))
       \<and> clock w \<le> clock (cleanup_tick w)
       \<and> clock (cleanup_tick w) \<le> clock w + 3000 * int (length (sessions w))
       \<and> cleanup_worker (Suc ticks) w
           = cleanup_worker ticks
               (cleanup_tick (w\<lparr>clock := clock w + cleanup_interval_seconds w * 1000\<rparr>))"
proof (cases "clock w - last_used s > idle_timeout_seconds w * 1000")
  case True
  with cleanup_tick_evicts [OF assms(1,3)] clock_cleanup_tick [of w] show ?thesis
    by simp
next
  case False
  with cleanup_tick_keeps [OF assms] clock_cleanup_tick [of w] show ?thesis
    by simp
qed

theorem idle_eviction_per_tick_witness:
  "distinct (map fst (sessions (two_sessions\<lparr>clock := 50000\<rparr>)))
   \<and> distinct (map (\<lambda>(k, s). process s) (sessions (two_sessions\<lparr>clock := 50000\<rparr>)))
   \<and> map_of (sessions (two_sessions\<lparr>clock := 50000\<rparr>)) ''a''
       = Some \<lparr>session_key = ''a'', process = 0, last_used = 0\<rparr>
   \<and> clock (two_sessions\<lparr>clock := 50000\<rparr>)
         - last_used \<lparr>session_key = ''a'', process = 0, last_used = 0\<rparr>
       > idle_timeout_seconds (two_sessions\<lparr>clock := 50000\<rparr>) * 1000
   \<and> map_of (sessions (cleanup_tick (two_sessions\<lparr>clock := 50000\<rparr>))) ''a'' = None
   \<and> terminated 0 (cleanup_tick (two_sessions\<lparr>clock := 50000\<rparr>))
   \<and> map_of (sessions (two_sessions\<lparr>clock := 50000\<rparr>)) ''b''
       = Some \<lparr>session_key = ''b'', process = 1, last_used = 10000\<rparr>
   \<and> \<not> clock (two_sessions\<lparr>clock := 50000\<rparr>)
         - last_used \<lparr>session_key = ''b'', process = 1, last_used = 10000\<rparr>
       > idle_timeout_seconds (two_sessions\<lparr>clock := 50000\<rparr>) * 1000
   \<and> map_of (sessions (cleanup_tick (two_sessions\<lparr>clock := 50000\<rparr>))) ''b''
       = Some \<lparr>session_key = ''b'', process = 1, last_used = 10000\<rparr>
   \<and> procs (cleanup_tick (two_sessions\<lparr>clock := 50000\<rparr>)) 1
       = procs (two_sessions\<lparr>clock := 50000\<rparr>) 1
   \<and> signals 1 (trace (cleanup_tick (two_sessions\<lparr>clock := 50000\<rparr>)))
       = signals 1 (trace (two_sessions\<lparr>clock := 50000\<rparr>))"
proof -
  let ?w = "two_sessions\<lparr>clock := 50000\<rparr>"
  let ?a = "\<lparr>session_key = ''a'', process = 0, last_used = 0\<rparr>"
  let ?b = "\<lparr>session_key = ''b'', process = 1, last_used = 10000\<rparr>"
  have d: "distinct (map fst (sessions ?w))"
    by (simp add: two_sessions_def init_def)
  have p: "distinct (map (\<lambda>(k, s). process s) (sessions ?w))"
    by (simp add: two_sessions_def init_def)
  have a: "map_of (sessions ?w) ''a'' = Some ?a"
    by (simp add: two_sessions_def init_def)
  have b: "map_of (sessions ?w) ''b'' = Some ?b"
    by (simp add: two_sessions_def init_def)
  have stale: "clock ?w - last_used ?a > idle_timeout_seconds ?w * 1000"
    by (simp add: two_sessions_def init_def)
  have fresh: "\<not> clock ?w - last_used ?b > idle_timeout_seconds ?w * 1000"
    by (simp add: two_sessions_def init_def)
  from idle_eviction_per_tick [OF d p a, of 0] idle_eviction_per_tick [OF d p b, of 0]
    d p a b stale fresh
  show ?thesis by simp
qed

section \<open>The registry invariant\<close>

lemma consistent_cleanup_worker:
  "registry_keys_consistent w \<Longrightarrow> registry_keys_consistent (cleanup_worker ticks w)"
proof (induction ticks arbitrary: w)
  case 0
  then show ?case by simp
next
  case (Suc ticks)
  let ?w = "w\<lparr>clock := clock w + cleanup_interval_seconds w * 1000\<rparr>"
  from Suc.prems have "registry_keys_consistent ?w"
    by (simp add: registry_keys_consistent_def)
  then have "registry_keys_consistent (cleanup_tick ?w)"
    by (rule consistent_cleanup_tick)
  then show ?case
    by (simp add: Suc.IH)
qed

lemma install_returns:
  "fst (install_session key w) = Inr s \<Longrightarrow>
   session_key s = key \<and> map_of (sessions (snd (install_session key w))) key = Some s"
  by (auto simp: install_session_def spawn_process_def set_proc_def emit_def Let_def
      update_conv' split: option.splits)

lemma get_or_create_returns:
  assumes "registry_keys_consistent w" and "fst (get_or_create_session key w) = Inr s"
  shows "session_key s = key
       \<and> map_of (sessions (snd (get_or_create_session key w))) key = Some s"
proof (cases "map_of (sessions w) key")
  case None
  with assms(2) install_returns [of key "emit (Acquire RegistryLock) w" s] show ?thesis
    by (simp add: get_or_create_session_def Let_def)
next
  case (Some session)
  let ?p = "poll (process session) (emit (Acquire RegistryLock) w)"
  show ?thesis
  proof (cases "fst ?p")
    case True
    with Some assms(2) have s: "s = session"
      by (simp add: get_or_create_session_def Let_def split_beta)
    from Some have "(key, session) \<in> set (sessions w)"
      by (rule map_of_SomeD)
    with assms(1) have "session_key session = key"
      by (auto simp: registry_keys_consistent_def)
    with Some True s show ?thesis
      by (simp add: get_or_create_session_def Let_def split_beta)
  next
    case False
    with Some assms(2)
      install_returns [of key "terminate_process (process session) (snd ?p)" s]
    show ?thesis
      by (simp add: get_or_create_session_def Let_def split_beta)
  qed
qed

lemma replace_returns:
  assumes "fst (replace_session key w) = Inr s"
  shows "session_key s = key \<and> map_of (sessions (snd (replace_session key w))) key = Some s"
proof (cases "map_of (sessions w) key")
  case None
  with assms install_returns [of key "emit (Acquire RegistryLock) w" s] show ?thesis
    by (simp add: replace_session_def Let_def)
next
  case (Some existing)
  with assms
    install_returns [of key "terminate_process (process existing) (emit (Acquire RegistryLock) w)" s]
  show ?thesis
    by (simp add: replace_session_def Let_def)
qed

text \<open>
  Claim C9. Every entry of the session map is stored under its own \<open>session_key\<close>.
  This holds for the adapter as constructed and is preserved by
  \<^verbatim>\<open>_get_or_create_session\<close>, \<^verbatim>\<open>_replace_session\<close>, \<^verbatim>\<open>_terminate_session\<close>, a reaper
  tick, the reaper's loop, \<^verbatim>\<open>close\<close> and \<^verbatim>\<open>ask\<close>; the session that
  \<^verbatim>\<open>_get_or_create_session\<close> or \<^verbatim>\<open>_replace_session\<close> returns carries the key it was
  asked for and is the entry stored under that key.
\<close>

theorem registry_key_consistency:
  "registry_keys_consistent (init plan dec idle_timeout cleanup_interval)
   \<and> (registry_keys_consistent w \<longrightarrow>
        registry_keys_consistent (snd (get_or_create_session key w))
      \<and> registry_keys_consistent (snd (replace_session key w))
      \<and> registry_keys_consistent (terminate_session key w)
      \<and> registry_keys_consistent (cleanup_tick w)
      \<and> registry_keys_consistent (cleanup_worker ticks w)
      \<and> registry_keys_consistent (close w)
      \<and> (\<forall>r w'. ask fuel key prompt timeout_seconds w = Some (r, w')
            \<longrightarrow> registry_keys_consistent w')
      \<and> (\<forall>s. fst (get_or_create_session key w) = Inr s \<longrightarrow>
            session_key s = key
            \<and> map_of (sessions (snd (get_or_create_session key w))) key = Some s)
      \<and> (\<forall>s. fst (replace_session key w) = Inr s \<longrightarrow>
            session_key s = key
            \<and> map_of (sessions (snd (replace_session key w))) key = Some s))"
proof (intro conjI impI allI)
  show "registry_keys_consistent (init plan dec idle_timeout cleanup_interval)"
    by (simp add: registry_keys_consistent_def init_def)
next
  fix r w'
  assume "registry_keys_consistent w" "ask fuel key prompt timeout_seconds w = Some (r, w')"
  then show "registry_keys_consistent w'"
    by (rule consistent_ask)
qed (simp_all add: consistent_get_or_create consistent_replace consistent_terminate_session
    consistent_cleanup_tick consistent_cleanup_worker consistent_close
    get_or_create_returns replace_returns)

theorem registry_key_consistency_witness:
  "registry_keys_consistent one_session
   \<and> registry_keys_consistent (snd (get_or_create_session ''u2'' one_session))
   \<and> registry_keys_consistent (snd (replace_session ''u1'' one_session))
   \<and> registry_keys_consistent (terminate_session ''u1'' one_session)
   \<and> registry_keys_consistent (close one_session)
   \<and> fst (replace_session ''u1'' one_session)
       = Inr \<lparr>session_key = ''u1'', process = 1, last_used = 3000\<rparr>
   \<and> session_key \<lparr>session_key = ''u1'', process = 1, last_used = 3000\<rparr> = ''u1''
   \<and> map_of (sessions (snd (replace_session ''u1'' one_session))) ''u1''
       = Some \<lparr>session_key = ''u1'', process = 1, last_used = 3000\<rparr>"
proof -
  have ok: "registry_keys_consistent one_session"
    by (simp add: registry_keys_consistent_def one_session_def init_def)
  have r: "fst (replace_session ''u1'' one_session)
       = Inr \<lparr>session_key = ''u1'', process = 1, last_used = 3000\<rparr>"
    by (simp add: one_session_def world_defs)
  from registry_key_consistency [of "\<lambda>n. None" id 0 0 one_session "''u1''" 0 0 "''''" 0]
    registry_key_consistency [of "\<lambda>n. None" id 0 0 one_session "''u2''" 0 0 "''''" 0]
    ok r
  show ?thesis by simp
qed

text \<open>
  Claim C3: the code at an input where it differs. The registry holds a session under
  \<open>u1\<close> whose child is running and ignores SIGTERM. \<^verbatim>\<open>_replace_session\<close> signals
  the child and waits out the grace period between taking and releasing the registry
  lock; \<^verbatim>\<open>_terminate_session\<close> releases the lock before it signals.
\<close>

theorem replace_terminates_under_registry_lock:
  "trace (snd (replace_session ''u1'' one_session))
     = [Acquire RegistryLock, SigTerm 0, SigKill 0, Spawn 1, Release RegistryLock]
   \<and> clock (snd (replace_session ''u1'' one_session)) = clock one_session + 3000
   \<and> trace (terminate_session ''u1'' one_session)
     = [Acquire RegistryLock, Release RegistryLock, SigTerm 0, SigKill 0]"
  by (simp add: one_session_def world_defs)

section \<open>Properties of the bridge service\<close>

text \<open>
  Claim C10. For a payload whose parsed event has no sender id, or a text that is
  empty or whitespace only, \<^verbatim>\<open>handle_incoming_event\<close> answers with status
  \<^verbatim>\<open>ignored\<close> and calls neither adapter; and whatever the payload, every call of
  \<^verbatim>\<open>ask\<close> it makes has a non-empty session key and a prompt that is not whitespace
  only.
\<close>

theorem handle_incoming_event_guards_ask:
  "(sender_id (parse_event payload) = [] \<or> strip (event_text (parse_event payload)) = [] \<longrightarrow>
      (\<exists>body. fst (handle_incoming_event parse_event claude_ask send_message payload) = Inr body
         \<and> map_of body ''status'' = Some (Str ''ignored''))
      \<and> snd (handle_incoming_event parse_event claude_ask send_message payload) = [])
   \<and> (\<forall>session_key prompt.
        Ask session_key prompt
          \<in> set (snd (handle_incoming_event parse_event claude_ask send_message payload))
        \<longrightarrow> session_key \<noteq> [] \<and> strip prompt \<noteq> [])"
  by (auto simp: handle_incoming_event_def Let_def split: sum.splits prod.splits)

theorem handle_incoming_event_guards_ask_witness:
  "(sender_id \<lparr>event_id = ''evt-2'', sender_id = '''', channel_id = None, group_id = None,
               event_text = ''   '', is_self_message = False\<rparr> = []
    \<or> strip (event_text \<lparr>event_id = ''evt-2'', sender_id = '''', channel_id = None,
               group_id = None, event_text = ''   '', is_self_message = False\<rparr>) = [])
   \<and> (\<exists>body. fst (handle_incoming_event (\<lambda>p. p) (\<lambda>k p. Inr ''world'') (\<lambda>e c. (200, ''ok''))
          \<lparr>event_id = ''evt-2'', sender_id = '''', channel_id = None, group_id = None,
            event_text = ''   '', is_self_message = False\<rparr>) = Inr body
         \<and> map_of body ''status'' = Some (Str ''ignored''))
   \<and> snd (handle_incoming_event (\<lambda>p. p) (\<lambda>k p. Inr ''world'') (\<lambda>e c. (200, ''ok''))
          \<lparr>event_id = ''evt-2'', sender_id = '''', channel_id = None, group_id = None,
            event_text = ''   '', is_self_message = False\<rparr>) = []"
  using handle_incoming_event_guards_ask [of "\<lambda>p. p"
      "\<lparr>event_id = ''evt-2'', sender_id = '''', channel_id = None, group_id = None,
        event_text = ''   '', is_self_message = False\<rparr>" "\<lambda>k p. Inr ''world''"
      "\<lambda>e c. (200, ''ok'')"]
  by simp

end
